theory Spec2Isabelle
  imports Complex_Main
begin

section \<open>Digit Destroyer: the game engine of assets/js/app.js\<close>

text \<open>
  The class \<open>DigitDestroyer\<close> keeps the whole game in the fields of one object and
  changes them from click handlers, from one \<open>setInterval\<close> countdown and from
  \<open>setTimeout\<close> callbacks. The model is a record of those fields, one function per
  method (taking the record and returning the updated one) and one function per callback
  body. Visual effects, sounds and the advertisement SDK touch no field of the game and
  are left out; the two signals the properties speak about (the low-time tick sound and
  the posted final score) are appended to a log.

  JavaScript numbers are doubles; every number of the game is an integer far below
  \<open>2^53\<close>, where double arithmetic is exact, so they are modelled as \<open>int\<close>.
\<close>

subsection \<open>Data\<close>

text \<open>
  A grid cell holds a digit or \<open>null\<close>; reading a column that does not exist gives
  \<open>undefined\<close>.
\<close>

datatype cell = Undefined | Null | Num int

type_synonym grid = "cell list list"

text \<open>A cell's place: row and column, row 0 at the top.\<close>

type_synonym coord = "int \<times> int"

text \<open>
  \<open>Math.random()\<close> returns a number \<open>u\<close> with \<open>0 \<le> u < 1\<close>. A function that calls it
  takes the values it will draw as an argument \<open>rnd\<close>: \<open>rnd k\<close> is the value of its
  \<open>k\<close>-th call, counted from 0.
\<close>

typedef draw = "{u :: rat. 0 \<le> u \<and> u < 1}"
  by (rule exI [of _ 0]) simp

setup_lifting type_definition_draw

text \<open>The draw \<open>a / b\<close>, for writing down concrete runs.\<close>

lift_definition drawOf :: "nat \<Rightarrow> nat \<Rightarrow> draw" is
  "\<lambda>a b. if a < b then of_nat a / of_nat b else 0"
  by simp

text \<open>\<open>Math.floor(Math.random() * k)\<close>\<close>

definition randomBelow :: "int \<Rightarrow> draw \<Rightarrow> int" where
  "randomBelow k u = \<lfloor>Rep_draw u * of_int k\<rfloor>"

text \<open>The five power-up symbols of \<open>spawnPowerUps\<close>, in the order of its \<open>types\<close> array.\<close>

datatype powerType = Lightning | Bomb | Target | Star | Flame

text \<open>
  The bodies of the \<open>setTimeout\<close> callbacks that touch the game: the deferred
  \<open>grid[row][col] = null\<close> of \<open>destroyCells\<close>, the settle step
  (\<open>dropCells(); fillEmptySpaces()\<close>), the refill of \<open>fillEmptySpaces\<close>, the combo
  decay of \<open>calculateScore\<close>, the expiry of the combo boost, the expiry of a power-up
  node, the next \<open>spawnPowerUps\<close> and the end of the start button's cooldown.
\<close>

datatype task =
    DestroyCell int int
  | Settle
  | Fill
  | ComboDecay
  | ComboBoostExpiry
  | PowerUpExpiry nat
  | SpawnPowerUps
  | CooldownOff

datatype signal = SfxTick int | PostScore int

text \<open>
  \<open>timer\<close> is \<open>True\<close> when \<open>this.timer\<close> holds a running interval. A power-up node
  is a number (its identity) with its type; \<open>powerUps\<close> lists the nodes that are in the
  document (the code removes a node from the document and from \<open>this.powerUps\<close>
  together), \<open>nodes\<close> counts the nodes created so far. \<open>pending\<close> lists the
  \<open>setTimeout\<close> callbacks not yet run, each with its delay in milliseconds; the code
  never calls \<open>clearTimeout\<close>. The fields \<open>selectedCells\<close> and \<open>previewCells\<close> serve
  the hover preview only and are left out.
\<close>

record session =
  grid :: grid
  gridSize :: nat
  score :: int
  timeLeft :: int
  combo :: int
  level :: int
  isPlaying :: bool
  isPaused :: bool
  timer :: bool
  powerUps :: "(nat \<times> powerType) list"
  nodes :: nat
  startCooldown :: bool
  lastTickPlayed :: "int option"
  pending :: "(nat \<times> task) list"
  signals :: "signal list"

definition setTimeout :: "task \<Rightarrow> nat \<Rightarrow> session \<Rightarrow> session" where
  "setTimeout t ms s = s\<lparr>pending := pending s @ [(ms, t)]\<rparr>"

subsection \<open>The grid\<close>

text \<open>
  \<open>gridAt g r c\<close> is \<open>this.grid[r][c]\<close>. Every read of the code is inside the matrix:
  the coordinates come from a loop over \<open>0 .. gridSize - 1\<close>, from the bounds check of
  \<open>findConnectedCells\<close>, or from the \<open>data-row\<close> and \<open>data-col\<close> of a cell element
  that \<open>initializeGrid\<close> created. Outside the matrix the model gives \<open>Undefined\<close>
  (JavaScript gives \<open>undefined\<close> for a missing column and throws for a missing row).
\<close>

definition gridAt :: "grid \<Rightarrow> int \<Rightarrow> int \<Rightarrow> cell" where
  "gridAt g r c =
     (if 0 \<le> r \<and> r < int (length g) \<and> 0 \<le> c \<and> c < int (length (g ! nat r))
      then g ! nat r ! nat c else Undefined)"

text \<open>
  \<open>setCell g r c v\<close> is \<open>this.grid[r][c] = v\<close>. Every write of the code is inside the
  matrix, for the same reasons; outside it the model changes nothing.
\<close>

definition setCell :: "grid \<Rightarrow> int \<Rightarrow> int \<Rightarrow> cell \<Rightarrow> grid" where
  "setCell g r c v =
     (if 0 \<le> r \<and> r < int (length g) \<and> 0 \<le> c \<and> c < int (length (g ! nat r))
      then g[nat r := (g ! nat r)[nat c := v]] else g)"

text \<open>The cells of a \<open>gridSize \<times> gridSize\<close> board; these have an element in the document.\<close>

definition cellsIn :: "nat \<Rightarrow> coord set" where
  "cellsIn n = {0..<int n} \<times> {0..<int n}"

definition initializeGrid :: "(nat \<Rightarrow> draw) \<Rightarrow> session \<Rightarrow> session" where
  "initializeGrid rnd s =
     s\<lparr>grid := map (\<lambda>row. map (\<lambda>col. Num (randomBelow 10 (rnd (row * gridSize s + col))))
                              [0..<gridSize s])
                  [0..<gridSize s]\<rparr>"

subsection \<open>Connected cells\<close>

definition dirs :: "(int \<times> int) list" where
  "dirs = [(-1, 0), (1, 0), (0, -1), (0, 1)]"

text \<open>
  \<open>findConnectedCells\<close> returns the list \<open>out\<close> and adds to the set \<open>visited\<close> that its
  caller shares with it; the model returns both. The set holds the keys \<open>`${r}-${c}`\<close>,
  which determine \<open>r\<close> and \<open>c\<close>, so the model keeps the pairs. \<open>visitNeighbours\<close> is the
  \<open>for\<close> loop over \<open>dirs\<close>, with the directions still to do.
\<close>

function findConnectedCells ::
    "grid \<Rightarrow> nat \<Rightarrow> int \<Rightarrow> int \<Rightarrow> cell \<Rightarrow> coord set \<Rightarrow> coord list \<times> coord set"
  and visitNeighbours ::
    "grid \<Rightarrow> nat \<Rightarrow> int \<Rightarrow> int \<Rightarrow> cell \<Rightarrow> (int \<times> int) list \<Rightarrow> coord list \<Rightarrow> coord set
       \<Rightarrow> coord list \<times> coord set"
where
  "findConnectedCells g n r c digit visited =
     (if (r, c) \<in> visited then ([], visited)
      else if gridAt g r c \<noteq> digit then ([], visited)
      else visitNeighbours g n r c digit dirs [(r, c)] (insert (r, c) visited))"
| "visitNeighbours g n r c digit [] out visited = (out, visited)"
| "visitNeighbours g n r c digit ((dr, dc) # ds) out visited =
     (let nr = r + dr; nc = c + dc in
      if nr \<ge> 0 \<and> nr < int n \<and> nc \<ge> 0 \<and> nc < int n \<and> gridAt g nr nc = digit
      then (case findConnectedCells g n nr nc digit visited of
              (found, visited') \<Rightarrow> visitNeighbours g n r c digit ds (out @ found) visited')
      else visitNeighbours g n r c digit ds out visited)"
  by pat_completeness auto

text \<open>
  The recursion is nested: a later call receives the set that an earlier call returned.
  It ends because a call never removes a cell from the set, and each call that goes on
  adds an unvisited cell of the board.
\<close>

lemma visited_grows:
  "findConnectedCells_visitNeighbours_dom (Inl (g, n, r, c, digit, visited)) \<Longrightarrow>
     visited \<subseteq> snd (findConnectedCells g n r c digit visited)"
  "findConnectedCells_visitNeighbours_dom (Inr (g, n, r, c, digit, ds, out, visited)) \<Longrightarrow>
     visited \<subseteq> snd (visitNeighbours g n r c digit ds out visited)"
proof (induct g n r c digit visited and g n r c digit ds out visited
       rule: findConnectedCells_visitNeighbours.pinduct)
  case (1 g n r c digit visited)
  then show ?case by (auto simp: findConnectedCells.psimps)
next
  case (2 g n r c digit out visited)
  then show ?case by (simp add: visitNeighbours.psimps)
next
  case (3 g n r c digit dr dc ds out visited)
  let ?ok = "r + dr \<ge> 0 \<and> r + dr < int n \<and> c + dc \<ge> 0 \<and> c + dc < int n
             \<and> gridAt g (r + dr) (c + dc) = digit"
  show ?case
  proof (cases ?ok)
    case True
    obtain found visited'
      where f: "findConnectedCells g n (r + dr) (c + dc) digit visited = (found, visited')"
      by (cases "findConnectedCells g n (r + dr) (c + dc) digit visited")
    from 3(2)[OF refl refl True] f have a: "visited \<subseteq> visited'" by simp
    from 3(3)[OF refl refl True f[symmetric]]
    have b: "visited' \<subseteq> snd (visitNeighbours g n r c digit ds (out @ found) visited')" .
    from True f a b show ?thesis
      by (simp add: visitNeighbours.psimps(2)[OF 3(1)] Let_def)
  next
    case False
    with 3(4)[OF refl refl False] show ?thesis
      by (auto simp add: visitNeighbours.psimps(2)[OF 3(1)] Let_def)
  qed
qed

lemma finite_cellsIn: "finite (cellsIn n)"
  by (simp add: cellsIn_def)

termination findConnectedCells
proof (relation "inv_image (less_than <*lex*> less_than <*lex*> less_than)
     (\<lambda>x. case x of
        Inl (g, n, r, c, digit, visited) \<Rightarrow>
          (card (cellsIn n - visited), if (r, c) \<in> cellsIn n then 0 else 2, 0)
      | Inr (g, n, r, c, digit, ds, out, visited) \<Rightarrow>
          (card (cellsIn n - visited), 1, length ds))", goal_cases)
  case 1
  show ?case by (intro wf_inv_image wf_lex_prod wf_less_than)
next
  case (2 g n r c digit visited)
  then show ?case
    by (cases "(r, c) \<in> cellsIn n")
       (auto simp: finite_cellsIn intro!: diff_less card_gt_0_iff[THEN iffD2])
next
  case 3
  then show ?case by (simp add: cellsIn_def)
next
  case (4 g n r c digit dr dc ds out visited x xa xb y)
  from visited_grows(1)[OF 4(5)] 4(4) have "visited \<subseteq> y"
    by (metis snd_conv)
  then have "cellsIn n - y \<subseteq> cellsIn n - visited" by blast
  then have "card (cellsIn n - y) \<le> card (cellsIn n - visited)"
    by (intro card_mono) (simp_all add: finite_cellsIn)
  then show ?case by auto
next
  case 5
  then show ?case by simp
qed

declare findConnectedCells.simps [simp del] visitNeighbours.simps [simp del]

text \<open>
  What the traversal is measured against: an orthogonal step between two cells of the
  board that both hold \<open>digit\<close>, and the region of a cell, which is all that such steps
  reach from it.
\<close>

definition sameDigitSteps :: "grid \<Rightarrow> nat \<Rightarrow> cell \<Rightarrow> (coord \<times> coord) set" where
  "sameDigitSteps g n digit =
     {(p, q). p \<in> cellsIn n \<and> q \<in> cellsIn n
              \<and> gridAt g (fst p) (snd p) = digit \<and> gridAt g (fst q) (snd q) = digit
              \<and> (\<exists>d \<in> set dirs. q = (fst p + fst d, snd p + snd d))}"

definition region :: "grid \<Rightarrow> nat \<Rightarrow> int \<Rightarrow> int \<Rightarrow> coord set" where
  "region g n r c = (sameDigitSteps g n (gridAt g r c))\<^sup>* `` {(r, c)}"

text \<open>
  The steps the traversal itself takes (to a neighbour on the board that holds the digit),
  and what a call has done when it returns: the cells it reports are new, pairwise
  different, reached from its start, and every step from one of them leads to a visited
  cell.
\<close>

definition moves :: "grid \<Rightarrow> nat \<Rightarrow> cell \<Rightarrow> (coord \<times> coord) set" where
  "moves g n digit =
     {(p, q). q \<in> cellsIn n \<and> gridAt g (fst q) (snd q) = digit
              \<and> (\<exists>d \<in> set dirs. q = (fst p + fst d, snd p + snd d))}"

definition explored :: "grid \<Rightarrow> nat \<Rightarrow> cell \<Rightarrow> coord \<Rightarrow> coord set \<Rightarrow> coord list \<Rightarrow> bool" where
  "explored g n digit start visited new \<longleftrightarrow>
     distinct new \<and> set new \<inter> visited = {}
     \<and> set new \<subseteq> (moves g n digit)\<^sup>* `` {start}
     \<and> (\<forall>p \<in> set new. moves g n digit `` {p} \<subseteq> visited \<union> set new)"

subsection \<open>Destroying, dropping and refilling\<close>

text \<open>
  \<open>destroyCells\<close> marks each cell whose element exists and defers its
  \<open>grid[row][col] = null\<close> by 250 ms. The element exists for the cells of the board.
\<close>

definition destroyCells :: "coord list \<Rightarrow> session \<Rightarrow> session" where
  "destroyCells cells s =
     fold (\<lambda>(row, col) s. if (row, col) \<in> cellsIn (gridSize s)
                           then setTimeout (DestroyCell row col) 250 s else s) cells s"

definition destroyCell :: "int \<Rightarrow> int \<Rightarrow> session \<Rightarrow> session" where
  "destroyCell row col s = s\<lparr>grid := setCell (grid s) row col Null\<rparr>"

text \<open>The inner loop of \<open>dropCells\<close>, from \<open>row\<close> down to 0 in column \<open>col\<close>.\<close>

function dropColumn :: "int \<Rightarrow> int \<Rightarrow> int \<Rightarrow> grid \<Rightarrow> grid" where
  "dropColumn col row write g =
     (if row \<ge> 0 then
        if gridAt g row col \<noteq> Null then
          (let g = (if row \<noteq> write
                    then setCell (setCell g write col (gridAt g row col)) row col Null
                    else g)
           in dropColumn col (row - 1) (write - 1) g)
        else dropColumn col (row - 1) write g
      else g)"
  by pat_completeness auto
termination
  by (relation "measure (\<lambda>(col, row, write, g). nat (row + 1))") auto

declare dropColumn.simps [simp del]

definition dropCells :: "session \<Rightarrow> session" where
  "dropCells s =
     s\<lparr>grid := fold (\<lambda>col g. dropColumn (int col) (int (gridSize s) - 1) (int (gridSize s) - 1) g)
                   [0..<gridSize s] (grid s)\<rparr>"

text \<open>\<open>fillEmptySpaces\<close> only defers its loops by 800 ms; \<open>fill\<close> is the deferred body.\<close>

definition fillEmptySpaces :: "session \<Rightarrow> session" where
  "fillEmptySpaces s = setTimeout Fill 800 s"

definition fillCell :: "(nat \<Rightarrow> draw) \<Rightarrow> int \<Rightarrow> int \<Rightarrow> grid \<times> nat \<Rightarrow> grid \<times> nat" where
  "fillCell rnd r c = (\<lambda>(g, k).
     if gridAt g r c = Null then (setCell g r c (Num (randomBelow 10 (rnd k))), Suc k)
     else (g, k))"

definition fillGrid :: "(nat \<Rightarrow> draw) \<Rightarrow> nat \<Rightarrow> grid \<Rightarrow> grid" where
  "fillGrid rnd n g =
     fst (fold (\<lambda>r. fold (\<lambda>c. fillCell rnd (int r) (int c)) [0..<n]) [0..<n] (g, 0))"

definition fill :: "(nat \<Rightarrow> draw) \<Rightarrow> session \<Rightarrow> session" where
  "fill rnd s = s\<lparr>grid := fillGrid rnd (gridSize s) (grid s)\<rparr>"

text \<open>The callback that follows an accepted match or a grid power-up after 500 ms.\<close>

definition settle :: "session \<Rightarrow> session" where
  "settle s = fillEmptySpaces (dropCells s)"

text \<open>
  Words for what these functions do to a board: a digit cell; a matrix of \<open>n\<close> rows of
  \<open>n\<close> cells; a matrix of that shape holding digits only; a column read from the top;
  a column with its empty cells moved to the top and the others kept in order; and a
  board refilled from another, where a cell that was not empty is unchanged and a cell
  that was empty is still empty or holds a digit.
\<close>

fun isDigit :: "cell \<Rightarrow> bool" where
  "isDigit (Num d) = (0 \<le> d \<and> d \<le> 9)"
| "isDigit _ = False"

definition square :: "nat \<Rightarrow> grid \<Rightarrow> bool" where
  "square n g \<longleftrightarrow> length g = n \<and> list_all (\<lambda>row. length row = n) g"

definition fullGrid :: "nat \<Rightarrow> grid \<Rightarrow> bool" where
  "fullGrid n g \<longleftrightarrow> square n g \<and> list_all (list_all isDigit) g"

definition column :: "grid \<Rightarrow> nat \<Rightarrow> nat \<Rightarrow> cell list" where
  "column g n c = map (\<lambda>r. gridAt g (int r) (int c)) [0..<n]"

definition compacted :: "cell list \<Rightarrow> cell list" where
  "compacted xs = replicate (length (filter (\<lambda>x. x = Null) xs)) Null @ filter (\<lambda>x. x \<noteq> Null) xs"

definition refilled :: "nat \<Rightarrow> grid \<Rightarrow> grid \<Rightarrow> bool" where
  "refilled n g g' \<longleftrightarrow>
     square n g'
     \<and> (\<forall>r < n. \<forall>c < n.
           (gridAt g (int r) (int c) \<noteq> Null \<longrightarrow> gridAt g' (int r) (int c) = gridAt g (int r) (int c))
         \<and> (gridAt g (int r) (int c) = Null \<longrightarrow>
               gridAt g' (int r) (int c) = Null \<or> isDigit (gridAt g' (int r) (int c))))"

subsection \<open>Scoring\<close>

definition calculateScore :: "int \<Rightarrow> session \<Rightarrow> session" where
  "calculateScore n s =
     (let base = n * 10;
          bonus = max 0 ((n - 2) * 15);
          comboBonus = combo s * 5;
          levelBonus = level s * 2;
          total = base + bonus + comboBonus + levelBonus;
          s = s\<lparr>score := score s + total\<rparr>;
          s = s\<lparr>combo := combo s + 1\<rparr>
      in setTimeout ComboDecay 3000 s)"

text \<open>The callback that \<open>calculateScore\<close> schedules.\<close>

definition comboDecay :: "session \<Rightarrow> session" where
  "comboDecay s = (if combo s > 0 then s\<lparr>combo := max 0 (combo s - 1)\<rparr> else s)"

text \<open>The level check that follows a change of the score in the power-ups.\<close>

definition levelUp :: "session \<Rightarrow> session" where
  "levelUp s = (if score s > level s * 600 then s\<lparr>level := level s + 1\<rparr> else s)"

subsection \<open>Countdown\<close>

definition stopTimer :: "session \<Rightarrow> session" where
  "stopTimer s = s\<lparr>timer := False\<rparr>"

definition startTimer :: "session \<Rightarrow> session" where
  "startTimer s =
     (let s = stopTimer s;
          s = s\<lparr>lastTickPlayed := None\<rparr>
      in s\<lparr>timer := True\<rparr>)"

definition clearPowerUps :: "session \<Rightarrow> session" where
  "clearPowerUps s = s\<lparr>powerUps := []\<rparr>"

definition endGame :: "session \<Rightarrow> session" where
  "endGame s =
     (let s = s\<lparr>isPlaying := False\<rparr>;
          s = stopTimer s;
          s = clearPowerUps s
      in s\<lparr>signals := signals s @ [PostScore (score s)]\<rparr>)"

text \<open>The body of the interval callback of \<open>_startTimer\<close>, run once a second.\<close>

definition tick :: "session \<Rightarrow> session" where
  "tick s =
     (if \<not> isPaused s then
        (let s = s\<lparr>timeLeft := timeLeft s - 1\<rparr>;
             s = (if timeLeft s \<le> 10 \<and> timeLeft s \<ge> 0 then
                    (if lastTickPlayed s \<noteq> Some (timeLeft s)
                     then s\<lparr>signals := signals s @ [SfxTick (timeLeft s)],
                            lastTickPlayed := Some (timeLeft s)\<rparr>
                     else s)
                  else s)
         in if timeLeft s \<le> 0 then endGame s else s)
      else s)"

subsection \<open>Power-ups\<close>

definition types :: "powerType list" where
  "types = [Lightning, Bomb, Target, Star, Flame]"

text \<open>
  \<open>spawnPowerUps\<close> draws the chance (\<open>Math.random() < 0.3\<close>), then for a new node its
  type and the two screen coordinates, then the delay of its next run
  (\<open>8000 + Math.random() * 7000\<close> ms, of which the model keeps the whole milliseconds).
\<close>

definition spawnChance :: "draw \<Rightarrow> bool" where
  "spawnChance u \<longleftrightarrow> Rep_draw u < 3 / 10"

definition spawnDelay :: "draw \<Rightarrow> nat" where
  "spawnDelay u = nat \<lfloor>8000 + Rep_draw u * 7000\<rfloor>"

definition spawnPowerUps :: "(nat \<Rightarrow> draw) \<Rightarrow> session \<Rightarrow> session" where
  "spawnPowerUps rnd s =
     (if \<not> isPlaying s then s
      else if spawnChance (rnd 0) then
        (let t = types ! nat (randomBelow (int (length types)) (rnd 1));
             n = nodes s;
             s = s\<lparr>nodes := Suc n, powerUps := powerUps s @ [(n, t)]\<rparr>;
             s = setTimeout (PowerUpExpiry n) 5000 s
         in setTimeout SpawnPowerUps (spawnDelay (rnd 4)) s)
      else setTimeout SpawnPowerUps (spawnDelay (rnd 1)) s)"

definition powerUpExpiry :: "nat \<Rightarrow> session \<Rightarrow> session" where
  "powerUpExpiry n s =
     (if n \<in> fst ` set (powerUps s)
      then s\<lparr>powerUps := filter (\<lambda>p. fst p \<noteq> n) (powerUps s)\<rparr> else s)"

text \<open>The eight draws of a cell in \<open>explodeRandomCells\<close>; a cell drawn twice is kept once.\<close>

definition randomCells :: "(nat \<Rightarrow> draw) \<Rightarrow> nat \<Rightarrow> coord list" where
  "randomCells rnd n =
     fold (\<lambda>i cells.
             (let row = randomBelow (int n) (rnd (2 * i));
                  col = randomBelow (int n) (rnd (2 * i + 1))
              in if find (\<lambda>c. fst c = row \<and> snd c = col) cells = None
                 then cells @ [(row, col)] else cells))
          [0..<8] []"

definition explodeRandomCells :: "(nat \<Rightarrow> draw) \<Rightarrow> session \<Rightarrow> session" where
  "explodeRandomCells rnd s =
     (let cells = randomCells rnd (gridSize s);
          s = destroyCells cells s;
          s = s\<lparr>score := score s + int (length cells) * 20\<rparr>;
          s = levelUp s
      in setTimeout Settle 500 s)"

definition cellsHolding :: "grid \<Rightarrow> nat \<Rightarrow> int \<Rightarrow> coord list" where
  "cellsHolding g n target =
     concat (map (\<lambda>r. map (\<lambda>c. (int r, int c))
                          (filter (\<lambda>c. gridAt g (int r) (int c) = Num target) [0..<n]))
                 [0..<n])"

definition clearRandomDigit :: "(nat \<Rightarrow> draw) \<Rightarrow> session \<Rightarrow> session" where
  "clearRandomDigit rnd s =
     (let target = randomBelow 10 (rnd 0);
          cells = cellsHolding (grid s) (gridSize s) target
      in if cells \<noteq> [] then
           (let s = destroyCells cells s;
                s = s\<lparr>score := score s + int (length cells) * 15\<rparr>;
                s = levelUp s
            in setTimeout Settle 500 s)
         else s)"

definition activatePowerUp :: "(nat \<Rightarrow> draw) \<Rightarrow> powerType \<Rightarrow> nat \<Rightarrow> session \<Rightarrow> session" where
  "activatePowerUp rnd type el s =
     (let s = s\<lparr>powerUps := filter (\<lambda>p. fst p \<noteq> el) (powerUps s)\<rparr>
      in case type of
           Lightning \<Rightarrow> s\<lparr>timeLeft := timeLeft s + 10\<rparr>
         | Bomb \<Rightarrow> explodeRandomCells rnd s
         | Target \<Rightarrow> levelUp (s\<lparr>score := score s + 500\<rparr>)
         | Star \<Rightarrow> setTimeout ComboBoostExpiry 3000 (s\<lparr>combo := combo s + 3\<rparr>)
         | Flame \<Rightarrow> clearRandomDigit rnd s)"

text \<open>The callback that the combo boost schedules.\<close>

definition comboBoostExpiry :: "session \<Rightarrow> session" where
  "comboBoostExpiry s = s\<lparr>combo := combo s - 3\<rparr>"

subsection \<open>Clicking a cell\<close>

definition handleCellClick :: "int \<Rightarrow> int \<Rightarrow> session \<Rightarrow> session" where
  "handleCellClick row col s =
     (if \<not> isPlaying s \<or> isPaused s then s
      else
        (let digit = gridAt (grid s) row col;
             connectedCells = fst (findConnectedCells (grid s) (gridSize s) row col digit {})
         in if length connectedCells \<ge> 2 then
              (let s = destroyCells connectedCells s;
                   s = calculateScore (int (length connectedCells)) s;
                   s = setTimeout Settle 500 s
               in if score s > level s * 600 \<and> level s \<le> 15
                  then s\<lparr>level := level s + 1\<rparr> else s)
            else s))"

subsection \<open>Controls\<close>

definition constructor :: "(nat \<Rightarrow> draw) \<Rightarrow> session" where
  "constructor rnd =
     initializeGrid rnd
       \<lparr>grid = [], gridSize = 8, score = 0, timeLeft = 60, combo = 0, level = 1,
        isPlaying = False, isPaused = False, timer = False, powerUps = [], nodes = 0,
        startCooldown = False, lastTickPlayed = None, pending = [], signals = []\<rparr>"

definition startGame :: "(nat \<Rightarrow> draw) \<Rightarrow> session \<Rightarrow> session" where
  "startGame rnd s =
     (let s = s\<lparr>isPlaying := True, isPaused := False, timeLeft := 60, score := 0,
                combo := 0, level := 1\<rparr>;
          s = stopTimer s;
          s = startTimer s;
          s = clearPowerUps s
      in spawnPowerUps rnd s)"

definition pauseGame :: "session \<Rightarrow> session" where
  "pauseGame s =
     (if isPaused s then startTimer (s\<lparr>isPaused := False\<rparr>)
      else stopTimer (s\<lparr>isPaused := True\<rparr>))"

definition resetGame :: "(nat \<Rightarrow> draw) \<Rightarrow> session \<Rightarrow> session" where
  "resetGame rnd s =
     (let s = s\<lparr>isPlaying := False, isPaused := False, score := 0, timeLeft := 60,
                combo := 0, level := 1\<rparr>;
          s = clearPowerUps s;
          s = stopTimer s
      in initializeGrid rnd s)"

definition shuffleGrid :: "(nat \<Rightarrow> draw) \<Rightarrow> session \<Rightarrow> session" where
  "shuffleGrid rnd s = initializeGrid rnd s"

text \<open>
  \<open>handleStartButton\<close>: when it resets before starting, \<open>resetGame\<close> takes the first
  \<open>gridSize * gridSize\<close> draws and \<open>startGame\<close> the following ones.
\<close>

definition handleStartButton :: "(nat \<Rightarrow> draw) \<Rightarrow> session \<Rightarrow> session" where
  "handleStartButton rnd s =
     (if startCooldown s then s
      else
        (let s = s\<lparr>startCooldown := True\<rparr>;
             s = setTimeout CooldownOff 250 s
         in if \<not> isPlaying s \<or> isPaused s then startGame rnd s
            else startGame (\<lambda>k. rnd (gridSize s * gridSize s + k)) (resetGame rnd s)))"

definition cooldownOff :: "session \<Rightarrow> session" where
  "cooldownOff s = s\<lparr>startCooldown := False\<rparr>"

text \<open>The two entry points of the rewarded video.\<close>

definition showRewardedVideo :: "session \<Rightarrow> session" where
  "showRewardedVideo s = stopTimer (s\<lparr>isPaused := True\<rparr>)"

definition giveReward :: "session \<Rightarrow> session" where
  "giveReward s = startTimer (s\<lparr>timeLeft := timeLeft s + 20, isPaused := False\<rparr>)"

subsection \<open>Events\<close>

text \<open>
  What can happen to a session: a click on a cell of the board, on one of the buttons or
  on a power-up node that is in the document, a run of the countdown callback while the
  interval exists, the run of a pending \<open>setTimeout\<close> callback (named by its place in
  \<open>pending\<close>, which it leaves), and the two calls of the advertisement layer. The delays
  are recorded but not compared: the model lets the pending callbacks run in any order.
\<close>

datatype event =
    CellClick int int
  | StartButton
  | PauseButton
  | ResetButton
  | ShuffleButton
  | PowerUpClick nat
  | Tick
  | Timeout nat
  | WatchAd
  | Reward

definition runTask :: "(nat \<Rightarrow> draw) \<Rightarrow> task \<Rightarrow> session \<Rightarrow> session" where
  "runTask rnd t s =
     (case t of
        DestroyCell row col \<Rightarrow> destroyCell row col s
      | Settle \<Rightarrow> settle s
      | Fill \<Rightarrow> fill rnd s
      | ComboDecay \<Rightarrow> comboDecay s
      | ComboBoostExpiry \<Rightarrow> comboBoostExpiry s
      | PowerUpExpiry n \<Rightarrow> powerUpExpiry n s
      | SpawnPowerUps \<Rightarrow> spawnPowerUps rnd s
      | CooldownOff \<Rightarrow> cooldownOff s)"

definition step :: "(nat \<Rightarrow> draw) \<Rightarrow> event \<Rightarrow> session \<Rightarrow> session" where
  "step rnd e s =
     (case e of
        CellClick row col \<Rightarrow>
          if (row, col) \<in> cellsIn (gridSize s) then handleCellClick row col s else s
      | StartButton \<Rightarrow> handleStartButton rnd s
      | PauseButton \<Rightarrow> pauseGame s
      | ResetButton \<Rightarrow> resetGame rnd s
      | ShuffleButton \<Rightarrow> shuffleGrid rnd s
      | PowerUpClick el \<Rightarrow>
          (case map_of (powerUps s) el of
             Some type \<Rightarrow> activatePowerUp rnd type el s
           | None \<Rightarrow> s)
      | Tick \<Rightarrow> if timer s then tick s else s
      | Timeout i \<Rightarrow>
          if i < length (pending s)
          then runTask rnd (snd (pending s ! i))
                 (s\<lparr>pending := take i (pending s) @ drop (Suc i) (pending s)\<rparr>)
          else s
      | WatchAd \<Rightarrow> showRewardedVideo s
      | Reward \<Rightarrow> giveReward s)"

text \<open>A run: the events in order, each with the values its handler draws.\<close>

fun run :: "((nat \<Rightarrow> draw) \<times> event) list \<Rightarrow> session \<Rightarrow> session" where
  "run [] s = s"
| "run ((rnd, e) # es) s = run es (step rnd e s)"




subsection \<open>Concrete sessions\<close>

text \<open>
  A board given by the draws of \<open>initializeGrid\<close>, the session that \<open>startGame\<close> makes
  of it when no power-up spawns at once, and that session after a click on the group of
  3s in the top left corner and the six deferred \<open>grid[row][col] = null\<close> that follow
  it.
\<close>

definition half :: "nat \<Rightarrow> draw" where "half = (\<lambda>k. drawOf 1 2)"

definition boardDigits :: "nat list" where
  "boardDigits =
     [3, 3, 1, 2, 4, 5, 6, 7,
      3, 3, 2, 1, 5, 4, 7, 6,
      0, 3, 3, 2, 4, 5, 6, 7,
      1, 0, 1, 0, 5, 4, 7, 6,
      8, 9, 8, 9, 8, 9, 8, 9,
      9, 8, 9, 8, 9, 8, 9, 8,
      8, 9, 8, 9, 8, 9, 8, 9,
      9, 8, 9, 8, 9, 8, 9, 8]"

definition boardDraws :: "nat \<Rightarrow> draw" where
  "boardDraws k = drawOf (if k < length boardDigits then boardDigits ! k else 0) 10"

definition board :: grid where
  "board =
     [[Num 3, Num 3, Num 1, Num 2, Num 4, Num 5, Num 6, Num 7],
      [Num 3, Num 3, Num 2, Num 1, Num 5, Num 4, Num 7, Num 6],
      [Num 0, Num 3, Num 3, Num 2, Num 4, Num 5, Num 6, Num 7],
      [Num 1, Num 0, Num 1, Num 0, Num 5, Num 4, Num 7, Num 6],
      [Num 8, Num 9, Num 8, Num 9, Num 8, Num 9, Num 8, Num 9],
      [Num 9, Num 8, Num 9, Num 8, Num 9, Num 8, Num 9, Num 8],
      [Num 8, Num 9, Num 8, Num 9, Num 8, Num 9, Num 8, Num 9],
      [Num 9, Num 8, Num 9, Num 8, Num 9, Num 8, Num 9, Num 8]]"

definition playing :: session where
  "playing = startGame half (constructor boardDraws)"

definition emptied :: session where
  "emptied = run [(half, CellClick 0 0), (half, Timeout 1), (half, Timeout 1), (half, Timeout 1),
                  (half, Timeout 1), (half, Timeout 1), (half, Timeout 1)] playing"


definition starDraws :: "nat \<Rightarrow> draw" where
  "starDraws = (\<lambda>k. if k = 0 then drawOf 1 10 else drawOf 7 10)"

definition targetDraws :: "nat \<Rightarrow> draw" where
  "targetDraws = (\<lambda>k. if k = 0 then drawOf 1 10 else drawOf 1 2)"

fun bonusRun :: "nat \<Rightarrow> nat \<Rightarrow> ((nat \<Rightarrow> draw) \<times> event) list" where
  "bonusRun n 0 = []"
| "bonusRun n (Suc k) =
     [(targetDraws, Timeout 0), (half, PowerUpClick n), (half, Timeout 0)] @ bonusRun (Suc n) k"

definition bonus :: "session \<Rightarrow> session" where
  "bonus s = (levelUp (s\<lparr>score := score s + 500\<rparr>))
               \<lparr>nodes := Suc (nodes s), pending := [(11500, SpawnPowerUps)]\<rparr>"

fun bonusLevels :: "nat \<Rightarrow> int \<times> int \<Rightarrow> int \<times> int" where
  "bonusLevels 0 p = p"
| "bonusLevels (Suc k) (sc, lv) =
     bonusLevels k (sc + 500, if sc + 500 > lv * 600 then lv + 1 else lv)"

section \<open>Properties\<close>

subsection \<open>Draws\<close>

lemma Rep_drawOf: "a < b \<Longrightarrow> Rep_draw (drawOf a b) = of_nat a / of_nat b"
  by (simp add: drawOf.rep_eq)

lemma randomBelow_drawOf: "a < b \<Longrightarrow> randomBelow k (drawOf a b) = (int a * k) div int b"
proof -
  assume "a < b"
  then have "Rep_draw (drawOf a b) * of_int k = of_int (int a * k) / of_int (int b)"
    by (simp add: drawOf.rep_eq)
  then show ?thesis
    unfolding randomBelow_def by (simp only: floor_divide_of_int_eq)
qed

lemma spawnChance_drawOf: "a < b \<Longrightarrow> spawnChance (drawOf a b) = (10 * a < 3 * b)"
proof -
  assume ab: "a < b"
  then have "(of_nat a / of_nat b < (3 / 10 :: rat)) = ((of_nat a :: rat) * 10 < 3 * of_nat b)"
    by (simp add: divide_less_eq)
  also have "\<dots> = ((of_nat (a * 10) :: rat) < of_nat (3 * b))" by simp
  also have "\<dots> = (a * 10 < 3 * b)" by (simp only: of_nat_less_iff)
  finally show ?thesis using ab by (simp add: spawnChance_def drawOf.rep_eq mult.commute)
qed

lemma spawnDelay_drawOf: "a < b \<Longrightarrow> spawnDelay (drawOf a b) = 8000 + (a * 7000) div b"
proof -
  assume ab: "a < b"
  have "\<lfloor>(of_nat a / of_nat b :: rat) * 7000\<rfloor> = \<lfloor>(of_int (int (a * 7000)) / of_int (int b) :: rat)\<rfloor>"
    by simp
  also have "\<dots> = int (a * 7000) div int b" by (simp only: floor_divide_of_int_eq)
  finally have "\<lfloor>(of_nat a / of_nat b :: rat) * 7000\<rfloor> = int ((a * 7000) div b)"
    by (simp add: zdiv_int)
  then show ?thesis using ab
    by (simp add: spawnDelay_def drawOf.rep_eq)
qed

lemma randomBelow_range: "0 < k \<Longrightarrow> 0 \<le> randomBelow k u \<and> randomBelow k u < k"
proof -
  assume k: "0 < k"
  have u: "0 \<le> Rep_draw u" "Rep_draw u < 1" using Rep_draw [of u] by auto
  then have "0 \<le> Rep_draw u * of_int k" using k by simp
  moreover have "Rep_draw u * of_int k < of_int k" using u k by simp
  ultimately show ?thesis unfolding randomBelow_def by (simp add: floor_less_iff)
qed

lemma isDigit_random [simp]: "isDigit (Num (randomBelow 10 u))"
proof -
  have "0 \<le> randomBelow 10 u \<and> randomBelow 10 u < 10" by (rule randomBelow_range) simp
  then show ?thesis by simp
qed

subsection \<open>What the scheduling functions leave alone\<close>

lemma setTimeout_fields [simp]:
  "grid (setTimeout t ms s) = grid s" "gridSize (setTimeout t ms s) = gridSize s"
  "score (setTimeout t ms s) = score s" "timeLeft (setTimeout t ms s) = timeLeft s"
  "combo (setTimeout t ms s) = combo s" "level (setTimeout t ms s) = level s"
  "isPlaying (setTimeout t ms s) = isPlaying s" "isPaused (setTimeout t ms s) = isPaused s"
  "timer (setTimeout t ms s) = timer s" "powerUps (setTimeout t ms s) = powerUps s"
  "nodes (setTimeout t ms s) = nodes s" "startCooldown (setTimeout t ms s) = startCooldown s"
  "lastTickPlayed (setTimeout t ms s) = lastTickPlayed s"
  "signals (setTimeout t ms s) = signals s"
  "pending (setTimeout t ms s) = pending s @ [(ms, t)]"
  by (simp_all add: setTimeout_def)

lemma destroyCells_eq:
  "destroyCells cells s =
     s\<lparr>pending := pending s @ map (\<lambda>(row, col). (250, DestroyCell row col))
                                   (filter (\<lambda>p. p \<in> cellsIn (gridSize s)) cells)\<rparr>"
proof (induction cells arbitrary: s)
  case Nil
  show ?case by (simp add: destroyCells_def)
next
  case (Cons p cells)
  obtain row col where p: "p = (row, col)" by (cases p)
  have "destroyCells (p # cells) s =
          destroyCells cells (if (row, col) \<in> cellsIn (gridSize s)
                              then setTimeout (DestroyCell row col) 250 s else s)"
    by (simp add: destroyCells_def p)
  then show ?case
    by (simp add: Cons.IH p setTimeout_def)
qed

subsection \<open>Scoring\<close>

text \<open>
  C1. For a match of size \<open>n \<ge> 2\<close>, with \<open>c\<close> the combo and \<open>l\<close> the level at the call,
  \<open>calculateScore n\<close> adds exactly \<open>n*10 + max 0 ((n-2)*15) + c*5 + l*2\<close> to the score,
  the combo bonus being computed from the combo before the increment, and then raises
  the combo by exactly one. A match of 2 at combo 0 and level 1 gives 22 points, a match
  of 4 at combo 2 and level 3 gives 86.
\<close>

theorem calculateScore_points:
  "2 \<le> n \<Longrightarrow>
     score (calculateScore n s) = score s + (n * 10 + max 0 ((n - 2) * 15) + combo s * 5 + level s * 2)
   \<and> score (calculateScore n s) = score s + (25 * n - 30 + 5 * combo s + 2 * level s)
   \<and> combo (calculateScore n s) = combo s + 1
   \<and> level (calculateScore n s) = level s
   \<and> (combo s = 0 \<and> level s = 1 \<longrightarrow> score (calculateScore 2 s) = score s + 22)
   \<and> (combo s = 2 \<and> level s = 3 \<longrightarrow> score (calculateScore 4 s) = score s + 86)"
  by (simp add: calculateScore_def setTimeout_def Let_def)

theorem calculateScore_points_witness:
  "(2::int) \<le> 4
   \<and> score (calculateScore 4 ((constructor (\<lambda>k. drawOf 0 1))\<lparr>combo := 2, level := 3\<rparr>)) = 86
   \<and> combo (calculateScore 4 ((constructor (\<lambda>k. drawOf 0 1))\<lparr>combo := 2, level := 3\<rparr>)) = 3"
  using calculateScore_points [of 4 "(constructor (\<lambda>k. drawOf 0 1))\<lparr>combo := 2, level := 3\<rparr>"]
  by (simp add: constructor_def initializeGrid_def)

subsection \<open>Connected cells\<close>

lemma traversal:
  "\<exists>new. findConnectedCells g n r c digit visited = (new, visited \<union> set new)
         \<and> explored g n digit (r, c) visited new
         \<and> (gridAt g r c = digit \<longrightarrow> (r, c) \<in> visited \<union> set new)"
  "set ds \<subseteq> set dirs \<Longrightarrow>
   \<exists>new. visitNeighbours g n r c digit ds out visited = (out @ new, visited \<union> set new)
         \<and> explored g n digit (r, c) visited new
         \<and> (\<forall>d \<in> set ds. ((r, c), (r + fst d, c + snd d)) \<in> moves g n digit
                \<longrightarrow> (r + fst d, c + snd d) \<in> visited \<union> set new)"
proof (induct g n r c digit visited and g n r c digit ds out visited
       rule: findConnectedCells_visitNeighbours.induct)
  case (1 g n r c digit visited)
  show ?case
  proof (cases "(r, c) \<in> visited \<or> gridAt g r c \<noteq> digit")
    case True
    then show ?thesis by (auto simp: explored_def findConnectedCells.simps)
  next
    case False
    then have nv: "(r, c) \<notin> visited" and dg: "gridAt g r c = digit" by auto
    from 1[OF nv] dg obtain new where
      res: "visitNeighbours g n r c digit dirs [(r, c)] (insert (r, c) visited)
              = ([(r, c)] @ new, insert (r, c) visited \<union> set new)"
      and ex: "explored g n digit (r, c) (insert (r, c) visited) new"
      and nb: "\<forall>d \<in> set dirs. ((r, c), (r + fst d, c + snd d)) \<in> moves g n digit
                \<longrightarrow> (r + fst d, c + snd d) \<in> insert (r, c) visited \<union> set new"
      by auto
    have "findConnectedCells g n r c digit visited = ((r, c) # new, visited \<union> set ((r, c) # new))"
      using nv dg res by (simp add: findConnectedCells.simps)
    moreover have "explored g n digit (r, c) visited ((r, c) # new)"
      using ex nb nv unfolding explored_def
      by (auto simp: moves_def)
    ultimately show ?thesis by auto
  qed
next
  case (2 g n r c digit out visited)
  show ?case by (simp add: explored_def visitNeighbours.simps)
next
  case (3 g n r c digit dr dc ds out visited)
  let ?ok = "r + dr \<ge> 0 \<and> r + dr < int n \<and> c + dc \<ge> 0 \<and> c + dc < int n
             \<and> gridAt g (r + dr) (c + dc) = digit"
  from 3(4) have ds: "set ds \<subseteq> set dirs" and d: "(dr, dc) \<in> set dirs" by auto
  show ?case
  proof (cases ?ok)
    case True
    from 3(1)[OF refl refl True] obtain found where
      f: "findConnectedCells g n (r + dr) (c + dc) digit visited = (found, visited \<union> set found)"
      and exf: "explored g n digit (r + dr, c + dc) visited found"
      and inf: "(r + dr, c + dc) \<in> visited \<union> set found"
      using True by auto
    from 3(2)[OF refl refl True f[symmetric] ds] obtain rest where
      l: "visitNeighbours g n r c digit ds (out @ found) (visited \<union> set found)
            = ((out @ found) @ rest, (visited \<union> set found) \<union> set rest)"
      and exr: "explored g n digit (r, c) (visited \<union> set found) rest"
      and nbr: "\<forall>d \<in> set ds. ((r, c), (r + fst d, c + snd d)) \<in> moves g n digit
                \<longrightarrow> (r + fst d, c + snd d) \<in> (visited \<union> set found) \<union> set rest"
      by auto
    have mv: "((r, c), (r + dr, c + dc)) \<in> moves g n digit"
      using True d by (force simp: moves_def cellsIn_def)
    have reach: "(moves g n digit)\<^sup>* `` {(r + dr, c + dc)} \<subseteq> (moves g n digit)\<^sup>* `` {(r, c)}"
      using mv by (auto intro: converse_rtrancl_into_rtrancl)
    have "visitNeighbours g n r c digit ((dr, dc) # ds) out visited
            = (out @ (found @ rest), visited \<union> set (found @ rest))"
      using True f l by (simp add: Un_assoc visitNeighbours.simps)
    moreover have "explored g n digit (r, c) visited (found @ rest)"
      using exf exr reach unfolding explored_def by (auto; blast)
    moreover have "\<forall>d \<in> set ((dr, dc) # ds). ((r, c), (r + fst d, c + snd d)) \<in> moves g n digit
                \<longrightarrow> (r + fst d, c + snd d) \<in> visited \<union> set (found @ rest)"
      using inf nbr by auto
    ultimately show ?thesis by blast
  next
    case False
    from 3(3)[OF refl refl False ds] obtain new where
      l: "visitNeighbours g n r c digit ds out visited = (out @ new, visited \<union> set new)"
      and ex: "explored g n digit (r, c) visited new"
      and nb: "\<forall>d \<in> set ds. ((r, c), (r + fst d, c + snd d)) \<in> moves g n digit
                \<longrightarrow> (r + fst d, c + snd d) \<in> visited \<union> set new"
      by auto
    have nm: "((r, c), (r + dr, c + dc)) \<notin> moves g n digit"
      using False by (auto simp: moves_def cellsIn_def)
    have "visitNeighbours g n r c digit ((dr, dc) # ds) out visited = (out @ new, visited \<union> set new)"
      using False l by (auto simp: visitNeighbours.simps)
    with ex nb nm show ?thesis by auto
  qed
qed

lemma moves_in_region:
  assumes "(r, c) \<in> cellsIn n" and "(p, q) \<in> (moves g n (gridAt g r c))\<^sup>*" and "p = (r, c)"
  shows "q \<in> cellsIn n \<and> gridAt g (fst q) (snd q) = gridAt g r c \<and> q \<in> region g n r c"
  using assms(2,1,3)
proof (induct rule: rtrancl_induct)
  case base
  then show ?case by (simp add: region_def)
next
  case (step y z)
  then have y: "y \<in> cellsIn n" "gridAt g (fst y) (snd y) = gridAt g r c" "y \<in> region g n r c"
    by auto
  from step(2) have z: "z \<in> cellsIn n" "gridAt g (fst z) (snd z) = gridAt g r c"
      "\<exists>d \<in> set dirs. z = (fst y + fst d, snd y + snd d)"
    by (auto simp: moves_def)
  with y have "(y, z) \<in> sameDigitSteps g n (gridAt g r c)"
    by (simp add: sameDigitSteps_def)
  with y(3) have "z \<in> region g n r c"
    unfolding region_def by (auto intro: rtrancl_into_rtrancl)
  with z show ?case by simp
qed

lemma sameDigitSteps_moves: "sameDigitSteps g n digit \<subseteq> moves g n digit"
  by (auto simp: sameDigitSteps_def moves_def)

lemma connected_region:
  assumes inb: "(r, c) \<in> cellsIn n"
  shows "set (fst (findConnectedCells g n r c (gridAt g r c) {})) = region g n r c"
    and "distinct (fst (findConnectedCells g n r c (gridAt g r c) {}))"
proof -
  let ?d = "gridAt g r c"
  from traversal(1)[of g n r c ?d "{}"] obtain new where
    res: "findConnectedCells g n r c ?d {} = (new, set new)"
    and ex: "explored g n ?d (r, c) {} new" and start: "(r, c) \<in> set new"
    by auto
  have sub: "set new \<subseteq> region g n r c"
  proof
    fix q assume "q \<in> set new"
    with ex have "((r, c), q) \<in> (moves g n ?d)\<^sup>*" unfolding explored_def by blast
    from moves_in_region[OF inb this refl] show "q \<in> region g n r c" by simp
  qed
  have sup: "region g n r c \<subseteq> set new"
  proof
    fix q assume "q \<in> region g n r c"
    then have "((r, c), q) \<in> (sameDigitSteps g n ?d)\<^sup>*" by (simp add: region_def)
    then show "q \<in> set new"
    proof (induct rule: rtrancl_induct)
      case base
      show ?case by (rule start)
    next
      case (step y z)
      then have "(y, z) \<in> moves g n ?d" using sameDigitSteps_moves by blast
      with step(3) ex show ?case unfolding explored_def by auto
    qed
  qed
  from sub sup res show "set (fst (findConnectedCells g n r c ?d {})) = region g n r c" by auto
  from ex res show "distinct (fst (findConnectedCells g n r c ?d {}))"
    by (simp add: explored_def)
qed

lemma region_alone:
  assumes "\<forall>d \<in> set dirs. \<not> ((r + fst d, c + snd d) \<in> cellsIn n
                              \<and> gridAt g (r + fst d) (c + snd d) = gridAt g r c)"
  shows "region g n r c = {(r, c)}"
proof -
  have "q = (r, c)" if "((r, c), q) \<in> (sameDigitSteps g n (gridAt g r c))\<^sup>*" for q
    using that
  proof (induct rule: rtrancl_induct)
    case base
    show ?case by simp
  next
    case (step y z)
    from step(2,3) obtain d where "d \<in> set dirs" "z = (r + fst d, c + snd d)"
      "z \<in> cellsIn n" "gridAt g (fst z) (snd z) = gridAt g r c"
      by (auto simp: sameDigitSteps_def)
    with assms show ?case by auto
  qed
  then show ?thesis by (auto simp: region_def)
qed

lemma distinct_one: "distinct xs \<Longrightarrow> set xs = {x} \<Longrightarrow> xs = [x]"
  by (cases xs; cases "tl xs") auto


subsection \<open>The concrete sessions, evaluated\<close>

lemma upt8: "[0..<8] = [0, 1, 2, 3, 4, 5, 6, 7::nat]"
  by code_simp

lemma grid_constructor: "grid (constructor boardDraws) = board"
  by (simp add: constructor_def initializeGrid_def upt8 boardDraws_def boardDigits_def
      randomBelow_drawOf board_def)

lemma playing_eq:
  "playing =
     \<lparr>grid = board, gridSize = 8, score = 0, timeLeft = 60, combo = 0, level = 1,
      isPlaying = True, isPaused = False, timer = True, powerUps = [], nodes = 0,
      startCooldown = False, lastTickPlayed = None, pending = [(11500, SpawnPowerUps)],
      signals = []\<rparr>"
  by (simp add: playing_def startGame_def constructor_def initializeGrid_def upt8 boardDraws_def boardDigits_def
      randomBelow_drawOf board_def startTimer_def stopTimer_def clearPowerUps_def spawnPowerUps_def
      half_def spawnChance_drawOf spawnDelay_drawOf setTimeout_def Let_def)


lemma group_at_origin:
  "findConnectedCells board 8 0 0 (Num 3) {}
     = ([(0, 0), (1, 0), (1, 1), (0, 1), (2, 1), (2, 2)],
        {(0, 0), (1, 0), (1, 1), (0, 1), (2, 1), (2, 2)})"
  by code_simp

lemma emptied_eq:
  "emptied =
     \<lparr>grid = [[Null, Null, Num 1, Num 2, Num 4, Num 5, Num 6, Num 7],
      [Null, Null, Num 2, Num 1, Num 5, Num 4, Num 7, Num 6],
      [Num 0, Null, Null, Num 2, Num 4, Num 5, Num 6, Num 7],
      [Num 1, Num 0, Num 1, Num 0, Num 5, Num 4, Num 7, Num 6],
      [Num 8, Num 9, Num 8, Num 9, Num 8, Num 9, Num 8, Num 9],
      [Num 9, Num 8, Num 9, Num 8, Num 9, Num 8, Num 9, Num 8],
      [Num 8, Num 9, Num 8, Num 9, Num 8, Num 9, Num 8, Num 9],
      [Num 9, Num 8, Num 9, Num 8, Num 9, Num 8, Num 9, Num 8]], gridSize = 8, score = 122, timeLeft = 60, combo = 1, level = 1,
      isPlaying = True, isPaused = False, timer = True, powerUps = [], nodes = 0,
      startCooldown = False, lastTickPlayed = None,
      pending = [(11500, SpawnPowerUps), (3000, ComboDecay), (500, Settle)],
      signals = []\<rparr>"
proof -
  have g: "gridAt board 0 0 = Num 3" by (simp add: gridAt_def board_def)
  show ?thesis
    unfolding emptied_def playing_eq
    apply (simp add: step_def handleCellClick_def cellsIn_def g group_at_origin destroyCells_eq
        calculateScore_def setTimeout_def Let_def runTask_def destroyCell_def)
    apply (simp add: board_def setCell_def)
    done
qed

subsection \<open>The connected group\<close>

text \<open>
  C4. For every grid and every start cell of the board, \<open>findConnectedCells\<close> (called
  with the start cell's value and a fresh visited set) returns exactly the maximal
  4-directionally connected region of cells holding that value: the cells returned are
  the region, each once; every one is on the board and holds the value; no neighbour on
  the board that holds the value is left out; and the result is the start cell alone when
  no neighbour holds its value. The function is total (it ends on every grid, by the
  termination proof above) and returns no grid: it only reads it.
\<close>

theorem findConnectedCells_region:
  assumes "(r, c) \<in> cellsIn n"
  shows "set (fst (findConnectedCells g n r c (gridAt g r c) {})) = region g n r c
       \<and> distinct (fst (findConnectedCells g n r c (gridAt g r c) {}))
       \<and> (r, c) \<in> set (fst (findConnectedCells g n r c (gridAt g r c) {}))
       \<and> (\<forall>p \<in> set (fst (findConnectedCells g n r c (gridAt g r c) {})).
            p \<in> cellsIn n \<and> gridAt g (fst p) (snd p) = gridAt g r c
            \<and> (\<forall>d \<in> set dirs.
                  (fst p + fst d, snd p + snd d) \<in> cellsIn n
                  \<and> gridAt g (fst p + fst d) (snd p + snd d) = gridAt g r c
                  \<longrightarrow> (fst p + fst d, snd p + snd d)
                        \<in> set (fst (findConnectedCells g n r c (gridAt g r c) {}))))
       \<and> ((\<forall>d \<in> set dirs. \<not> ((r + fst d, c + snd d) \<in> cellsIn n
                              \<and> gridAt g (r + fst d) (c + snd d) = gridAt g r c))
            \<longrightarrow> fst (findConnectedCells g n r c (gridAt g r c) {}) = [(r, c)])"
proof -
  let ?cs = "fst (findConnectedCells g n r c (gridAt g r c) {})"
  note cr = connected_region[OF assms, of g]
  have a: "(r, c) \<in> set ?cs" using cr(1) by (simp add: region_def)
  have mem: "p \<in> cellsIn n \<and> gridAt g (fst p) (snd p) = gridAt g r c" if "p \<in> set ?cs" for p
  proof -
    from that cr(1) have "((r, c), p) \<in> (sameDigitSteps g n (gridAt g r c))\<^sup>*"
      by (simp add: region_def)
    then have "((r, c), p) \<in> (moves g n (gridAt g r c))\<^sup>*"
      using rtrancl_mono[OF sameDigitSteps_moves] by blast
    from moves_in_region[OF assms this refl] show ?thesis by simp
  qed
  have closed: "(fst p + fst d, snd p + snd d) \<in> set ?cs"
    if "p \<in> set ?cs" "d \<in> set dirs" "(fst p + fst d, snd p + snd d) \<in> cellsIn n"
       "gridAt g (fst p + fst d) (snd p + snd d) = gridAt g r c" for p d
  proof -
    from mem[OF that(1)] that(2,3,4)
    have "(p, (fst p + fst d, snd p + snd d)) \<in> sameDigitSteps g n (gridAt g r c)"
      by (auto simp: sameDigitSteps_def)
    moreover from that(1) cr(1) have "p \<in> region g n r c" by simp
    ultimately have "(fst p + fst d, snd p + snd d) \<in> region g n r c"
      unfolding region_def by (auto intro: rtrancl_into_rtrancl)
    with cr(1) show ?thesis by simp
  qed
  have alone: "?cs = [(r, c)]"
    if "\<forall>d \<in> set dirs. \<not> ((r + fst d, c + snd d) \<in> cellsIn n
                              \<and> gridAt g (r + fst d) (c + snd d) = gridAt g r c)"
    using region_alone[OF that] cr by (auto intro: distinct_one)
  show ?thesis
    apply (intro conjI ballI impI)
    subgoal by (rule cr(1))
    subgoal by (rule cr(2))
    subgoal by (rule a)
    subgoal for p using mem[of p] by simp
    subgoal for p using mem[of p] by simp
    subgoal for p d using closed[of p d] by simp
    subgoal using alone by simp
    done
qed

theorem findConnectedCells_region_witness:
  "(0, 0) \<in> cellsIn 8
   \<and> fst (findConnectedCells board 8 0 0 (gridAt board 0 0) {})
       = [(0, 0), (1, 0), (1, 1), (0, 1), (2, 1), (2, 2)]
   \<and> region board 8 0 0 = {(0, 0), (1, 0), (1, 1), (0, 1), (2, 1), (2, 2)}"
proof -
  have a: "(0, 0) \<in> cellsIn 8" by (simp add: cellsIn_def)
  have b: "fst (findConnectedCells board 8 0 0 (gridAt board 0 0) {})
             = [(0, 0), (1, 0), (1, 1), (0, 1), (2, 1), (2, 2)]"
    by code_simp
  from findConnectedCells_region [OF a, of board] b a show ?thesis by simp
qed

subsection \<open>Clicks\<close>

lemma neighbour_differs: "d \<in> set dirs \<Longrightarrow> (r + fst d, c + snd d) \<noteq> (r, c)"
  by (auto simp: dirs_def)

lemma group_of_two:
  assumes inb: "(r, c) \<in> cellsIn n" and d: "d \<in> set dirs"
    and nb: "(r + fst d, c + snd d) \<in> cellsIn n"
    and same: "gridAt g (r + fst d) (c + snd d) = gridAt g r c"
  shows "2 \<le> length (fst (findConnectedCells g n r c (gridAt g r c) {}))"
    and "(r + fst d, c + snd d) \<in> set (fst (findConnectedCells g n r c (gridAt g r c) {}))"
proof -
  let ?cs = "fst (findConnectedCells g n r c (gridAt g r c) {})"
  note cr = connected_region[OF inb, of g]
  have a: "(r, c) \<in> set ?cs" using cr(1) by (simp add: region_def)
  have "((r, c), (r + fst d, c + snd d)) \<in> sameDigitSteps g n (gridAt g r c)"
    using inb d nb same by (auto simp: sameDigitSteps_def)
  then have "(r + fst d, c + snd d) \<in> region g n r c"
    unfolding region_def by auto
  with cr(1) show b: "(r + fst d, c + snd d) \<in> set ?cs" by simp
  from a b neighbour_differs[OF d, of r c]
  have "{(r, c), (r + fst d, c + snd d)} \<subseteq> set ?cs" by simp
  then have "card {(r, c), (r + fst d, c + snd d)} \<le> card (set ?cs)"
    by (intro card_mono) simp_all
  moreover have "card {(r, c), (r + fst d, c + snd d)} = 2"
    using neighbour_differs[OF d, of r c] by simp
  moreover have "card (set ?cs) = length ?cs" using cr(2) by (rule distinct_card)
  ultimately show "2 \<le> length ?cs" by simp
qed

lemma setCell_Null_again: "gridAt g r c = Null \<Longrightarrow> setCell g r c Null = g"
proof -
  assume a: "gridAt g r c = Null"
  then have b: "0 \<le> r" "r < int (length g)" "0 \<le> c" "c < int (length (g ! nat r))"
    "g ! nat r ! nat c = Null"
    by (auto simp: gridAt_def split: if_splits)
  then have "(g ! nat r)[nat c := Null] = g ! nat r"
    by (metis list_update_id)
  then have "g[nat r := (g ! nat r)[nat c := Null]] = g"
    by (simp add: list_update_id)
  with b show ?thesis by (simp add: setCell_def)
qed

text \<open>
  C5. A click on a playing, unpaused session whose connected group has fewer than two
  cells is rejected without any change: the session after the call is the session before
  it, so the grid, the score, the combo and the level are unchanged.
\<close>

theorem handleCellClick_rejected:
  assumes "isPlaying s" and "\<not> isPaused s"
    and "length (fst (findConnectedCells (grid s) (gridSize s) row col
                        (gridAt (grid s) row col) {})) < 2"
  shows "handleCellClick row col s = s
       \<and> grid (handleCellClick row col s) = grid s
       \<and> score (handleCellClick row col s) = score s
       \<and> combo (handleCellClick row col s) = combo s
       \<and> level (handleCellClick row col s) = level s"
  using assms by (simp add: handleCellClick_def Let_def)

theorem handleCellClick_rejected_witness:
  "isPlaying playing \<and> \<not> isPaused playing
   \<and> length (fst (findConnectedCells (grid playing) (gridSize playing) 0 2
                     (gridAt (grid playing) 0 2) {})) < 2
   \<and> handleCellClick 0 2 playing = playing"
proof -
  have a: "isPlaying playing" "\<not> isPaused playing" by (simp_all add: playing_eq)
  have "findConnectedCells board 8 0 2 (Num 1) {} = ([(0, 2)], {(0, 2)})"
    by code_simp
  moreover have "gridAt board 0 2 = Num 1" by (simp add: gridAt_def board_def)
  ultimately
  have b: "length (fst (findConnectedCells (grid playing) (gridSize playing) 0 2
                     (gridAt (grid playing) 0 2) {})) < 2"
    by (simp add: playing_eq)
  from handleCellClick_rejected [OF a b] a b show ?thesis by simp
qed

text \<open>
  C10. Empty cells are matchable. \<open>findConnectedCells\<close> compares \<open>null\<close> like a digit,
  so on a playing, unpaused session a click on an empty cell with an empty orthogonal
  neighbour finds a group of at least two empty cells that holds both; the click is
  accepted: \<open>calculateScore\<close> awards the points for the size of the group and raises the
  combo, and a deferred \<open>grid[row][col] = null\<close> is scheduled for every cell of the
  group, which is empty already and stays so.
\<close>

theorem handleCellClick_empty_cells:
  assumes play: "isPlaying s" "\<not> isPaused s"
    and inb: "(r, c) \<in> cellsIn (gridSize s)"
    and d: "d \<in> set dirs" and nb: "(r + fst d, c + snd d) \<in> cellsIn (gridSize s)"
    and empty: "gridAt (grid s) r c = Null" "gridAt (grid s) (r + fst d) (c + snd d) = Null"
  shows "2 \<le> length (fst (findConnectedCells (grid s) (gridSize s) r c Null {}))
       \<and> (r, c) \<in> set (fst (findConnectedCells (grid s) (gridSize s) r c Null {}))
       \<and> (r + fst d, c + snd d) \<in> set (fst (findConnectedCells (grid s) (gridSize s) r c Null {}))
       \<and> score (handleCellClick r c s) =
           score (calculateScore (int (length (fst (findConnectedCells (grid s) (gridSize s) r c Null {})))) s)
       \<and> score (handleCellClick r c s) \<ge> score s + 20 + combo s * 5 + level s * 2
       \<and> combo (handleCellClick r c s) = combo s + 1
       \<and> pending (handleCellClick r c s) =
           pending s
           @ map (\<lambda>(row, col). (250, DestroyCell row col))
                 (fst (findConnectedCells (grid s) (gridSize s) r c Null {}))
           @ [(3000, ComboDecay), (500, Settle)]
       \<and> (\<forall>p \<in> set (fst (findConnectedCells (grid s) (gridSize s) r c Null {})).
             gridAt (grid s) (fst p) (snd p) = Null
             \<and> grid (destroyCell (fst p) (snd p) s) = grid s)"
proof -
  let ?cs = "fst (findConnectedCells (grid s) (gridSize s) r c Null {})"
  let ?n = "int (length ?cs)"
  from group_of_two[OF inb d nb, of "grid s"] empty
  have two: "2 \<le> length ?cs" and nbin: "(r + fst d, c + snd d) \<in> set ?cs" by simp_all
  from connected_region[OF inb, of "grid s"] empty
  have reg: "set ?cs = region (grid s) (gridSize s) r c" and dist: "distinct ?cs" by simp_all
  have start: "(r, c) \<in> set ?cs" using reg by (simp add: region_def)
  have mem: "p \<in> cellsIn (gridSize s) \<and> gridAt (grid s) (fst p) (snd p) = Null" if "p \<in> set ?cs" for p
  proof -
    from that reg have "((r, c), p) \<in> (sameDigitSteps (grid s) (gridSize s) (gridAt (grid s) r c))\<^sup>*"
      by (simp add: region_def)
    then have "((r, c), p) \<in> (moves (grid s) (gridSize s) (gridAt (grid s) r c))\<^sup>*"
      using rtrancl_mono[OF sameDigitSteps_moves] by blast
    from moves_in_region[OF inb this refl] empty show ?thesis by simp
  qed
  have keep: "filter (\<lambda>p. p \<in> cellsIn (gridSize s)) ?cs = ?cs"
    using mem by (simp add: filter_id_conv)
  have click: "handleCellClick r c s =
      (let s' = setTimeout Settle 500 (calculateScore ?n (destroyCells ?cs s))
       in if score s' > level s' * 600 \<and> level s' \<le> 15 then s'\<lparr>level := level s' + 1\<rparr> else s')"
    using play two empty by (simp add: handleCellClick_def Let_def)
  have sc: "score (handleCellClick r c s) = score (calculateScore ?n s)"
    unfolding click by (simp add: Let_def calculateScore_def destroyCells_eq)
  have pts: "score (calculateScore ?n s) \<ge> score s + 20 + combo s * 5 + level s * 2"
    using two by (simp add: calculateScore_def Let_def)
  have cb: "combo (handleCellClick r c s) = combo s + 1"
    unfolding click by (simp add: Let_def calculateScore_def destroyCells_eq)
  have pd: "pending (handleCellClick r c s) =
           pending s @ map (\<lambda>(row, col). (250, DestroyCell row col)) ?cs
           @ [(3000, ComboDecay), (500, Settle)]"
    unfolding click by (simp add: Let_def calculateScore_def destroyCells_eq keep)
  have again: "grid (destroyCell (fst p) (snd p) s) = grid s" if "p \<in> set ?cs" for p
    using mem[OF that] by (simp add: destroyCell_def setCell_Null_again)
  from two start nbin sc pts cb pd mem again show ?thesis
    by (intro conjI ballI) (simp_all)
qed

theorem handleCellClick_empty_cells_witness:
  "isPlaying emptied \<and> \<not> isPaused emptied \<and> (0, 0) \<in> cellsIn (gridSize emptied)
   \<and> (1, 0) \<in> set dirs
   \<and> (0 + fst (1::int, 0::int), 0 + snd (1::int, 0::int)) \<in> cellsIn (gridSize emptied)
   \<and> gridAt (grid emptied) 0 0 = Null \<and> gridAt (grid emptied) 1 0 = Null
   \<and> combo (handleCellClick 0 0 emptied) = 2
   \<and> score (handleCellClick 0 0 emptied) \<ge> 149"
proof -
  have a: "isPlaying emptied" "\<not> isPaused emptied" by (simp_all add: emptied_eq)
  have b: "(0, 0) \<in> cellsIn (gridSize emptied)" by (simp add: emptied_eq cellsIn_def)
  have c: "(1, 0) \<in> set dirs" by (simp add: dirs_def)
  have d: "(0 + fst (1::int, 0::int), 0 + snd (1::int, 0::int)) \<in> cellsIn (gridSize emptied)"
    by (simp add: emptied_eq cellsIn_def)
  have e: "gridAt (grid emptied) 0 0 = Null"
    "gridAt (grid emptied) (0 + fst (1::int, 0::int)) (0 + snd (1::int, 0::int)) = Null"
    by (simp_all add: emptied_eq gridAt_def)
  have f: "combo emptied = 1" "score emptied = 122" "level emptied = 1"
    by (simp_all add: emptied_eq)
  from handleCellClick_empty_cells [OF a b c d e] a b c d e f show ?thesis by simp
qed

subsection \<open>Countdown\<close>


lemma levelUp_fields [simp]:
  "timeLeft (levelUp s) = timeLeft s" "signals (levelUp s) = signals s"
  "score (levelUp s) = score s" "combo (levelUp s) = combo s"
  "pending (levelUp s) = pending s" "grid (levelUp s) = grid s"
  by (simp_all add: levelUp_def)













lemma tick_running:
  assumes "\<not> isPaused s" and "1 < timeLeft s"
  shows "isPlaying (tick s) = isPlaying s" "isPaused (tick s) = isPaused s"
    "timer (tick s) = timer s" "timeLeft (tick s) = timeLeft s - 1" "score (tick s) = score s"
  using assms by (simp_all add: tick_def Let_def)

lemma tick_ending:
  assumes "\<not> isPaused s" and "timeLeft s \<le> 1"
  shows "\<not> isPlaying (tick s)" "\<not> timer (tick s)" "timeLeft (tick s) = timeLeft s - 1"
    "score (tick s) = score s" "last (signals (tick s)) = PostScore (score s)"
  using assms by (simp_all add: tick_def endGame_def stopTimer_def clearPowerUps_def Let_def)

lemma ticks_running:
  assumes "\<not> isPaused s" and "int k < timeLeft s"
  shows "isPlaying ((tick ^^ k) s) = isPlaying s \<and> \<not> isPaused ((tick ^^ k) s)
       \<and> timer ((tick ^^ k) s) = timer s \<and> timeLeft ((tick ^^ k) s) = timeLeft s - int k
       \<and> score ((tick ^^ k) s) = score s"
  using assms
proof (induction k)
  case 0
  then show ?case by simp
next
  case (Suc k)
  then have ih: "isPlaying ((tick ^^ k) s) = isPlaying s" "\<not> isPaused ((tick ^^ k) s)"
    "timer ((tick ^^ k) s) = timer s" "timeLeft ((tick ^^ k) s) = timeLeft s - int k"
    "score ((tick ^^ k) s) = score s"
    by simp_all
  from Suc.prems ih(4) have "1 < timeLeft ((tick ^^ k) s)" by simp
  from tick_running[OF ih(2) this] ih show ?case by simp
qed

lemma run_append: "run (xs @ ys) s = run ys (run xs s)"
  by (induction xs arbitrary: s) auto


text \<open>
  C7. While the session is playing and not paused, a run of the countdown callback lowers
  \<open>timeLeft\<close> by exactly one; when that brings it to 0 the game ends: \<open>isPlaying\<close>
  becomes false, the interval is cleared and the score is posted. With \<open>timeLeft = 60\<close>
  the session is still playing after each of the first 59 runs and ends at the 60th, after
  which the callback runs no more.
\<close>

theorem countdown:
  assumes "isPlaying s" and "\<not> isPaused s"
  shows "timeLeft (tick s) = timeLeft s - 1
       \<and> (timeLeft s - 1 \<le> 0 \<longrightarrow>
            \<not> isPlaying (tick s) \<and> \<not> timer (tick s)
            \<and> last (signals (tick s)) = PostScore (score s))
       \<and> (0 < timeLeft s - 1 \<longrightarrow> isPlaying (tick s) \<and> timer (tick s) = timer s)
       \<and> (timeLeft s = 60 \<longrightarrow>
            (\<forall>k < 60. isPlaying ((tick ^^ k) s) \<and> timeLeft ((tick ^^ k) s) = 60 - int k)
            \<and> \<not> isPlaying ((tick ^^ 60) s) \<and> timeLeft ((tick ^^ 60) s) = 0
            \<and> \<not> timer ((tick ^^ 60) s)
            \<and> last (signals ((tick ^^ 60) s)) = PostScore (score s)
            \<and> step rnd Tick ((tick ^^ 60) s) = (tick ^^ 60) s)"
proof -
  have one: "timeLeft (tick s) = timeLeft s - 1"
    using assms by (simp add: tick_def endGame_def stopTimer_def clearPowerUps_def Let_def)
  have ending: "\<not> isPlaying (tick s) \<and> \<not> timer (tick s)
            \<and> last (signals (tick s)) = PostScore (score s)" if "timeLeft s - 1 \<le> 0"
    using tick_ending[OF assms(2), of ] that by simp
  have going: "isPlaying (tick s) \<and> timer (tick s) = timer s" if "0 < timeLeft s - 1"
    using tick_running[OF assms(2)] that assms(1) by simp
  have sixty: "(\<forall>k < 60. isPlaying ((tick ^^ k) s) \<and> timeLeft ((tick ^^ k) s) = 60 - int k)
            \<and> \<not> isPlaying ((tick ^^ 60) s) \<and> timeLeft ((tick ^^ 60) s) = 0
            \<and> \<not> timer ((tick ^^ 60) s)
            \<and> last (signals ((tick ^^ 60) s)) = PostScore (score s)
            \<and> step rnd Tick ((tick ^^ 60) s) = (tick ^^ 60) s" if t: "timeLeft s = 60"
  proof -
    have before: "isPlaying ((tick ^^ k) s) \<and> timeLeft ((tick ^^ k) s) = 60 - int k" if "k < 60" for k
      using ticks_running[OF assms(2), of k] that t assms(1) by simp
    let ?s = "(tick ^^ 59) s"
    from ticks_running[OF assms(2), of 59] t
    have s59: "\<not> isPaused ?s" "timeLeft ?s = 1" "score ?s = score s" by simp_all
    have "(tick ^^ 60) s = tick ?s"
      by (simp add: numeral_eq_Suc)
    with tick_ending[OF s59(1), of ] s59
    have after: "\<not> isPlaying ((tick ^^ 60) s)" "timeLeft ((tick ^^ 60) s) = 0"
      "\<not> timer ((tick ^^ 60) s)" "last (signals ((tick ^^ 60) s)) = PostScore (score s)"
      by simp_all
    then have "step rnd Tick ((tick ^^ 60) s) = (tick ^^ 60) s" by (simp add: step_def)
    with before after show ?thesis by blast
  qed
  from one ending going sixty show ?thesis by blast
qed

theorem countdown_witness:
  "isPlaying playing \<and> \<not> isPaused playing \<and> timeLeft playing = 60
   \<and> timeLeft (tick playing) = 59
   \<and> \<not> isPlaying ((tick ^^ 60) playing) \<and> timeLeft ((tick ^^ 60) playing) = 0
   \<and> last (signals ((tick ^^ 60) playing)) = PostScore 0"
proof -
  have a: "isPlaying playing" "\<not> isPaused playing" by (simp_all add: playing_eq)
  have b: "timeLeft playing = 60" "score playing = 0" by (simp_all add: playing_eq)
  from countdown [OF a, of half] a b show ?thesis by simp
qed




subsection \<open>Level and combo\<close>

lemma bonus_round:
  assumes "isPlaying s" and "powerUps s = []" and "pending s = [(d, SpawnPowerUps)]"
  shows "run [(targetDraws, Timeout 0), (half, PowerUpClick (nodes s)), (half, Timeout 0)] s
           = bonus s"
  using assms
  by (simp add: step_def runTask_def spawnPowerUps_def targetDraws_def half_def
      spawnChance_drawOf spawnDelay_drawOf randomBelow_drawOf types_def setTimeout_def
      activatePowerUp_def powerUpExpiry_def levelUp_def bonus_def Let_def)

lemma bonus_fields:
  "isPlaying (bonus s) = isPlaying s" "powerUps (bonus s) = powerUps s"
  "pending (bonus s) = [(11500, SpawnPowerUps)]" "nodes (bonus s) = Suc (nodes s)"
  "score (bonus s) = score s + 500"
  "level (bonus s) = (if score s + 500 > level s * 600 then level s + 1 else level s)"
  by (simp_all add: bonus_def levelUp_def)

lemma bonus_rounds:
  assumes "isPlaying s" and "powerUps s = []" and "pending s = [(d, SpawnPowerUps)]"
  shows "run (bonusRun (nodes s) k) s = (bonus ^^ k) s"
  using assms
proof (induction k arbitrary: s d)
  case 0
  show ?case by simp
next
  case (Suc k)
  have "run (bonusRun (nodes s) (Suc k)) s
          = run (bonusRun (Suc (nodes s)) k)
              (run [(targetDraws, Timeout 0), (half, PowerUpClick (nodes s)), (half, Timeout 0)] s)"
    by (simp only: bonusRun.simps run_append)
  then have "run (bonusRun (nodes s) (Suc k)) s = run (bonusRun (Suc (nodes s)) k) (bonus s)"
    by (simp only: bonus_round[OF Suc.prems])
  also have "\<dots> = (bonus ^^ k) (bonus s)"
    using Suc.IH[of "bonus s" 11500] Suc.prems by (simp add: bonus_fields)
  finally show ?case by (simp add: funpow_swap1)
qed

lemma bonus_levels:
  "(score ((bonus ^^ k) s), level ((bonus ^^ k) s)) = bonusLevels k (score s, level s)"
proof (induction k arbitrary: s)
  case 0
  show ?case by simp
next
  case (Suc k)
  have "(bonus ^^ Suc k) s = (bonus ^^ k) (bonus s)" by (simp add: funpow_swap1)
  with Suc.IH[of "bonus s"] show ?case by (simp add: bonus_fields)
qed

lemma bonusLevels_values:
  "bonusLevels 18 (0, 1) = (9000, 15)" "bonusLevels 19 (0, 1) = (9500, 16)"
  "bonusLevels 20 (0, 1) = (10000, 17)"
  by code_simp+

lemma bonus_keeps:
  "grid ((bonus ^^ k) s) = grid s \<and> gridSize ((bonus ^^ k) s) = gridSize s
   \<and> combo ((bonus ^^ k) s) = combo s \<and> isPlaying ((bonus ^^ k) s) = isPlaying s
   \<and> isPaused ((bonus ^^ k) s) = isPaused s"
proof (induction k)
  case 0
  show ?case by simp
next
  case (Suc k)
  have "grid (bonus t) = grid t \<and> gridSize (bonus t) = gridSize t \<and> combo (bonus t) = combo t
        \<and> isPlaying (bonus t) = isPlaying t \<and> isPaused (bonus t) = isPaused t" for t
    by (simp add: bonus_def levelUp_def)
  with Suc show ?case by simp
qed

lemma click_origin:
  assumes "isPlaying s" and "\<not> isPaused s" and "grid s = board" and "gridSize s = 8"
  shows "level (handleCellClick 0 0 s) =
           (if score s + (120 + combo s * 5 + level s * 2) > level s * 600 \<and> level s \<le> 15
            then level s + 1 else level s)"
proof -
  have g: "gridAt board 0 0 = Num 3" by (simp add: gridAt_def board_def)
  show ?thesis
    using assms
    by (simp add: handleCellClick_def g group_at_origin destroyCells_eq calculateScore_def Let_def)
qed

text \<open>
  C2 does not hold of the code. The display shows the level as \<open>level/15\<close>, but the guard
  of \<open>handleCellClick\<close> is \<open>level <= 15\<close>, which lets level 15 rise to 16, and the three
  power-ups that add to the score have no guard at all. From the started game, paused,
  nineteen claimed target power-ups bring the level to 16 and twenty to 17; after
  eighteen of them (score 9000, level 15) resuming and one match bring it to 16.
\<close>

theorem level_sixteen:
  "level (run ((half, PauseButton) # bonusRun 0 19) playing) = 16
   \<and> level (run ((half, PauseButton) # bonusRun 0 20) playing) = 17
   \<and> level (run ((half, PauseButton) # bonusRun 0 18
                   @ [(half, PauseButton), (half, CellClick 0 0)]) playing) = 16"
proof -
  let ?paused = "step half PauseButton playing"
  have p: "isPlaying ?paused" "isPaused ?paused" "powerUps ?paused = []"
    "pending ?paused = [(11500, SpawnPowerUps)]" "nodes ?paused = 0"
    "score ?paused = 0" "level ?paused = 1" "grid ?paused = board" "gridSize ?paused = 8"
    "combo ?paused = 0"
    by (simp_all add: playing_eq step_def pauseGame_def stopTimer_def)
  have r: "run (bonusRun 0 k) ?paused = (bonus ^^ k) ?paused" for k
    using bonus_rounds[OF p(1) p(3) p(4), of k] p(5) by simp
  have l: "(score ((bonus ^^ k) ?paused), level ((bonus ^^ k) ?paused)) = bonusLevels k (0, 1)" for k
    using bonus_levels[of k ?paused] p by simp
  have a: "level (run ((half, PauseButton) # bonusRun 0 19) playing) = 16"
    using l[of 19] by (simp add: r bonusLevels_values)
  have b: "level (run ((half, PauseButton) # bonusRun 0 20) playing) = 17"
    using l[of 20] by (simp add: r bonusLevels_values)
  let ?s = "(bonus ^^ 18) ?paused"
  have s: "score ?s = 9000" "level ?s = 15" using l[of 18] by (simp_all add: bonusLevels_values)
  have k: "grid ?s = board" "gridSize ?s = 8" "combo ?s = 0" "isPlaying ?s" "isPaused ?s"
    using bonus_keeps[of 18 ?paused] p by simp_all
  let ?resumed = "step half PauseButton ?s"
  have q: "isPlaying ?resumed" "\<not> isPaused ?resumed" "grid ?resumed = board"
    "gridSize ?resumed = 8" "score ?resumed = 9000" "level ?resumed = 15" "combo ?resumed = 0"
    using s k by (simp_all add: step_def pauseGame_def startTimer_def stopTimer_def Let_def)
  have "level (step half (CellClick 0 0) ?resumed) = 16"
    using click_origin[OF q(1-4)] q by (simp add: step_def cellsIn_def)
  then have c: "level (run ((half, PauseButton) # bonusRun 0 18
                   @ [(half, PauseButton), (half, CellClick 0 0)]) playing) = 16"
    by (simp add: run_append r)
  from a b c show ?thesis by simp
qed

text \<open>
  C3 does not hold of the code. The decay callback of \<open>calculateScore\<close> clamps the combo at
  0, the expiry callback of the combo boost subtracts 3 unconditionally. A star power-up
  spawns and is clicked (combo 3), the player resets the game (combo 0), and the expiry
  callback, still pending, leaves the combo at -3.
\<close>

theorem combo_negative:
  "combo (run [(starDraws, Timeout 0), (half, PowerUpClick 0), (half, ResetButton),
               (half, Timeout 2)] playing) = - 3"
  by (simp add: playing_eq step_def runTask_def spawnPowerUps_def starDraws_def half_def
      spawnChance_drawOf spawnDelay_drawOf randomBelow_drawOf types_def setTimeout_def
      activatePowerUp_def resetGame_def clearPowerUps_def stopTimer_def initializeGrid_def
      comboBoostExpiry_def Let_def)

subsection \<open>Reset\<close>

lemma initializeGrid_board: "gridSize s = 8 \<Longrightarrow> grid (initializeGrid boardDraws s) = board"
  by (simp add: initializeGrid_def upt8 boardDraws_def boardDigits_def randomBelow_drawOf board_def)

text \<open>
  C9, as stated, fails: \<open>resetGame\<close> clears the interval and the power-up nodes, but the
  code has no means to cancel a \<open>setTimeout\<close>. After a match and a reset all nine pending
  callbacks are still pending, and the first deferred \<open>grid[row][col] = null\<close> empties
  a cell of the repopulated grid.
\<close>

theorem resetGame_leaves_callbacks:
  "pending (run [(half, CellClick 0 0), (boardDraws, ResetButton)] playing)
     = [(11500, SpawnPowerUps), (250, DestroyCell 0 0), (250, DestroyCell 1 0),
        (250, DestroyCell 1 1), (250, DestroyCell 0 1), (250, DestroyCell 2 1),
        (250, DestroyCell 2 2), (3000, ComboDecay), (500, Settle)]
   \<and> gridAt (grid (run [(half, CellClick 0 0), (boardDraws, ResetButton)] playing)) 0 0 = Num 3
   \<and> gridAt (grid (run [(half, CellClick 0 0), (boardDraws, ResetButton), (half, Timeout 1)]
                      playing)) 0 0 = Null"
proof -
  have g: "gridAt board 0 0 = Num 3" by (simp add: gridAt_def board_def)
  let ?r = "run [(half, CellClick 0 0), (boardDraws, ResetButton)] playing"
  have a: "pending ?r = [(11500, SpawnPowerUps), (250, DestroyCell 0 0), (250, DestroyCell 1 0),
        (250, DestroyCell 1 1), (250, DestroyCell 0 1), (250, DestroyCell 2 1),
        (250, DestroyCell 2 2), (3000, ComboDecay), (500, Settle)]"
    by (simp add: playing_eq step_def handleCellClick_def cellsIn_def g group_at_origin
        destroyCells_eq calculateScore_def setTimeout_def resetGame_def clearPowerUps_def
        stopTimer_def initializeGrid_def Let_def)
  have "gridSize (step half (CellClick 0 0) playing) = 8"
    by (simp add: playing_eq step_def handleCellClick_def cellsIn_def g group_at_origin
        destroyCells_eq calculateScore_def setTimeout_def Let_def)
  then have b: "grid ?r = board"
    by (simp add: step_def resetGame_def clearPowerUps_def stopTimer_def initializeGrid_board Let_def)
  have "grid (step half (Timeout 1) ?r) = setCell (grid ?r) 0 0 Null"
    using a by (simp add: step_def runTask_def destroyCell_def del: run.simps)
  with b have "gridAt (grid (step half (Timeout 1) ?r)) 0 0 = Null"
    by (simp add: board_def setCell_def gridAt_def del: run.simps)
  then have c: "gridAt (grid (run [(half, CellClick 0 0), (boardDraws, ResetButton),
                                     (half, Timeout 1)] playing)) 0 0 = Null"
    by simp
  from a b c g show ?thesis by simp
qed


text \<open>
  C9, amended. \<open>resetGame\<close> sets the score and the combo to 0, the level to 1 and the
  time to 60, leaves the session neither playing nor paused, repopulates the whole grid
  with digits, clears the interval (the countdown callback runs no more) and removes the
  power-up nodes. The \<open>setTimeout\<close> callbacks stay pending; of these an expiry of a
  power-up node, a \<open>spawnPowerUps\<close> and a combo decay find nothing to do on the reset
  session.
\<close>

theorem resetGame_state:
  "score (resetGame rnd s) = 0 \<and> combo (resetGame rnd s) = 0 \<and> level (resetGame rnd s) = 1
   \<and> timeLeft (resetGame rnd s) = 60
   \<and> \<not> isPlaying (resetGame rnd s) \<and> \<not> isPaused (resetGame rnd s)
   \<and> fullGrid (gridSize s) (grid (resetGame rnd s))
   \<and> \<not> timer (resetGame rnd s) \<and> step rnd' Tick (resetGame rnd s) = resetGame rnd s
   \<and> powerUps (resetGame rnd s) = []
   \<and> pending (resetGame rnd s) = pending s
   \<and> powerUpExpiry n (resetGame rnd s) = resetGame rnd s
   \<and> spawnPowerUps rnd' (resetGame rnd s) = resetGame rnd s
   \<and> comboDecay (resetGame rnd s) = resetGame rnd s"
proof -
  have "fullGrid (gridSize s) (grid (initializeGrid rnd t))" if "gridSize t = gridSize s" for t
    using that
    by (auto simp: fullGrid_def square_def initializeGrid_def list_all_iff simp del: isDigit.simps)
  then have "fullGrid (gridSize s) (grid (resetGame rnd s))"
    by (simp add: resetGame_def clearPowerUps_def stopTimer_def Let_def)
  then show ?thesis
    by (simp add: resetGame_def clearPowerUps_def stopTimer_def initializeGrid_def Let_def
        step_def powerUpExpiry_def spawnPowerUps_def comboDecay_def)
qed


theorem resetGame_state_witness:
  "score (resetGame half emptied) = 0 \<and> combo (resetGame half emptied) = 0
   \<and> level (resetGame half emptied) = 1 \<and> timeLeft (resetGame half emptied) = 60
   \<and> \<not> isPlaying (resetGame half emptied) \<and> \<not> timer (resetGame half emptied)
   \<and> fullGrid 8 (grid (resetGame half emptied))
   \<and> pending (resetGame half emptied)
       = [(11500, SpawnPowerUps), (3000, ComboDecay), (500, Settle)]"
  using resetGame_state [of half emptied half 0] by (simp add: emptied_eq)

subsection \<open>Dropping and refilling\<close>

lemma square_row: "square n g \<Longrightarrow> r < n \<Longrightarrow> length (g ! r) = n"
  by (simp add: square_def list_all_length)

lemma gridAt_square:
  "square n g \<Longrightarrow> r < n \<Longrightarrow> c < n \<Longrightarrow> gridAt g (int r) (int c) = g ! r ! c"
  by (simp add: gridAt_def square_row) (simp add: square_def)

lemma setCell_square:
  "square n g \<Longrightarrow> r < n \<Longrightarrow> c < n \<Longrightarrow>
     setCell g (int r) (int c) v = g[r := (g ! r)[c := v]]"
  by (simp add: setCell_def square_row) (simp add: square_def)

lemma square_setCell: "square n g \<Longrightarrow> square n (setCell g r c v)"
  by (auto simp: setCell_def square_def list_all_length nth_list_update)

lemma gridAt_setCell:
  assumes "square n g" "r < n" "c < n" "r' < n" "c' < n"
  shows "gridAt (setCell g (int r) (int c) v) (int r') (int c')
           = (if r' = r \<and> c' = c then v else gridAt g (int r') (int c'))"
proof -
  have len: "length g = n" "length (g ! r) = n" "length (g ! r') = n"
    using assms by (simp_all add: square_row) (simp add: square_def)
  have "setCell g (int r) (int c) v = g[r := (g ! r)[c := v]]"
    using assms by (simp add: setCell_square)
  moreover have "gridAt (g[r := (g ! r)[c := v]]) (int r') (int c')
           = (if r' = r \<and> c' = c then v else g ! r' ! c')"
    using assms(2-5) len by (auto simp: gridAt_def nth_list_update)
  ultimately show ?thesis using assms by (simp add: gridAt_square)
qed

lemma length_column [simp]: "length (column g n c) = n"
  by (simp add: column_def)

lemma nth_column: "r < n \<Longrightarrow> column g n c ! r = gridAt g (int r) (int c)"
  by (simp add: column_def)

lemma column_setCell:
  assumes "square n g" "r < n" "c < n" "c' < n"
  shows "column (setCell g (int r) (int c) v) n c'
           = (if c' = c then (column g n c)[r := v] else column g n c')"
  by (rule nth_equalityI)
     (simp_all add: nth_column gridAt_setCell[OF assms(1,2,3) _ assms(4)] nth_list_update)

lemma shift_down:
  "(pre @ [x] @ replicate (Suc j) Null @ ys)[length pre + Suc j := x, length pre := Null]
     = pre @ replicate (Suc j) Null @ (x # ys)"
proof -
  have a: "pre @ [x] @ replicate (Suc j) Null @ ys = (pre @ x # replicate j Null) @ Null # ys"
    by (simp add: replicate_append_same)
  have b: "length pre + Suc j = length (pre @ x # replicate j Null)" by simp
  have "(pre @ [x] @ replicate (Suc j) Null @ ys)[length pre + Suc j := x]
          = (pre @ x # replicate j Null) @ x # ys"
    unfolding a b by (rule list_update_length)
  then have "(pre @ [x] @ replicate (Suc j) Null @ ys)[length pre + Suc j := x, length pre := Null]
          = (pre @ x # (replicate j Null @ x # ys))[length pre := Null]"
    by simp
  also have "\<dots> = pre @ Null # (replicate j Null @ x # ys)"
    by (rule list_update_length)
  finally show ?thesis by simp
qed

lemma dropColumn_compacts:
  assumes "square n g" and "c < n" and "column g n c = pre @ replicate k Null @ ys"
  shows "square n (dropColumn (int c) (int (length pre) - 1) (int (length pre) - 1 + int k) g)
       \<and> column (dropColumn (int c) (int (length pre) - 1) (int (length pre) - 1 + int k) g) n c
           = replicate (k + length (filter (\<lambda>x. x = Null) pre)) Null
             @ filter (\<lambda>x. x \<noteq> Null) pre @ ys
       \<and> (\<forall>c' < n. c' \<noteq> c \<longrightarrow>
             column (dropColumn (int c) (int (length pre) - 1) (int (length pre) - 1 + int k) g) n c'
               = column g n c')"
  using assms
proof (induction pre arbitrary: g k ys rule: rev_induct)
  case Nil
  then show ?case by (simp add: dropColumn.simps)
next
  case (snoc x pre)
  let ?row = "length pre"
  have n: "n = length pre + 1 + k + length ys"
    using arg_cong[OF snoc.prems(3), of length] by simp
  have rown: "?row < n" using n by simp
  have x: "gridAt g (int ?row) (int c) = x"
    using nth_column[OF rown, of g c] snoc.prems(3) by (simp add: nth_append)
  have unfold: "dropColumn (int c) (int ?row) (int ?row + int k) g
      = (if x \<noteq> Null then
          dropColumn (int c) (int ?row - 1) (int ?row - 1 + int k)
            (if k \<noteq> 0 then setCell (setCell g (int (?row + k)) (int c) x) (int ?row) (int c) Null
             else g)
         else dropColumn (int c) (int ?row - 1) (int ?row - 1 + int (Suc k)) g)"
    by (subst dropColumn.simps) (simp add: x Let_def algebra_simps)
  let ?lhs = "dropColumn (int c) (int (length (pre @ [x])) - 1) (int (length (pre @ [x])) - 1 + int k) g"
  show ?case
  proof (cases "x = Null")
    case True
    have col: "column g n c = pre @ replicate (Suc k) Null @ ys"
      using snoc.prems(3) True by (simp add: replicate_append_same)
    have eq: "?lhs = dropColumn (int c) (int (length pre) - 1) (int (length pre) - 1 + int (Suc k)) g"
      using unfold True by simp
    from snoc.IH[OF snoc.prems(1,2) col] True show ?thesis
      unfolding eq by simp
  next
    case False
    show ?thesis
    proof (cases "k = 0")
      case True
      have col: "column g n c = pre @ replicate 0 Null @ (x # ys)"
        using snoc.prems(3) True by simp
      have eq: "?lhs = dropColumn (int c) (int (length pre) - 1) (int (length pre) - 1 + int 0) g"
        using unfold False True by simp
      from snoc.IH[OF snoc.prems(1,2) col] False True show ?thesis
        unfolding eq by simp
    next
      case k: False
      let ?g1 = "setCell g (int (?row + k)) (int c) x"
      let ?g2 = "setCell ?g1 (int ?row) (int c) Null"
      have wn: "?row + k < n" using n by simp
      have sq1: "square n ?g1" using snoc.prems(1) by (rule square_setCell)
      have sq2: "square n ?g2" using sq1 by (rule square_setCell)
      have c1: "column ?g1 n c = (column g n c)[?row + k := x]"
        using column_setCell[OF snoc.prems(1) wn snoc.prems(2) snoc.prems(2)] by simp
      have c2: "column ?g2 n c = (column g n c)[?row + k := x, ?row := Null]"
        using column_setCell[OF sq1 rown snoc.prems(2) snoc.prems(2)] c1 by simp
      obtain j where j: "k = Suc j" using k by (cases k) auto
      have "(pre @ [x] @ replicate k Null @ ys)[?row + k := x, ?row := Null]
              = pre @ replicate k Null @ (x # ys)"
        unfolding j by (rule shift_down)
      then have col: "column ?g2 n c = pre @ replicate k Null @ (x # ys)"
        using c2 snoc.prems(3) by simp
      have others: "column ?g2 n c' = column g n c'" if "c' < n" "c' \<noteq> c" for c'
        using column_setCell[OF sq1 rown snoc.prems(2) that(1)]
              column_setCell[OF snoc.prems(1) wn snoc.prems(2) that(1)] that(2) by simp
      have eq: "?lhs = dropColumn (int c) (int (length pre) - 1) (int (length pre) - 1 + int k) ?g2"
        using unfold False k by simp
      from snoc.IH[OF sq2 snoc.prems(2) col] False others show ?thesis
        unfolding eq by simp
    qed
  qed
qed

lemma dropColumns:
  assumes "square n g" and "m \<le> n"
  shows "square n (fold (\<lambda>col g. dropColumn (int col) (int n - 1) (int n - 1) g) [0..<m] g)
       \<and> (\<forall>c < n. column (fold (\<lambda>col g. dropColumn (int col) (int n - 1) (int n - 1) g) [0..<m] g) n c
                     = (if c < m then compacted (column g n c) else column g n c))"
  using assms(2)
proof (induction m)
  case 0
  show ?case using assms(1) by simp
next
  case (Suc m)
  let ?G = "fold (\<lambda>col g. dropColumn (int col) (int n - 1) (int n - 1) g) [0..<m] g"
  from Suc have sq: "square n ?G"
    and cols: "\<forall>c < n. column ?G n c = (if c < m then compacted (column g n c) else column g n c)"
    by simp_all
  have m: "m < n" using Suc.prems by simp
  have col: "column ?G n m = column ?G n m @ replicate 0 Null @ []" by simp
  from dropColumn_compacts[OF sq m col]
  have step: "square n (dropColumn (int m) (int n - 1) (int n - 1) ?G)"
    "column (dropColumn (int m) (int n - 1) (int n - 1) ?G) n m = compacted (column ?G n m)"
    "\<forall>c' < n. c' \<noteq> m \<longrightarrow> column (dropColumn (int m) (int n - 1) (int n - 1) ?G) n c' = column ?G n c'"
    by (simp_all add: compacted_def)
  have "fold (\<lambda>col g. dropColumn (int col) (int n - 1) (int n - 1) g) [0..<Suc m] g
          = dropColumn (int m) (int n - 1) (int n - 1) ?G"
    by simp
  with step cols m show ?case by (auto simp: less_Suc_eq)
qed

lemma dropCells_columns:
  assumes "square (gridSize s) (grid s)"
  shows "square (gridSize s) (grid (dropCells s))"
    and "c < gridSize s \<Longrightarrow>
           column (grid (dropCells s)) (gridSize s) c = compacted (column (grid s) (gridSize s) c)"
  using dropColumns[OF assms order_refl] by (simp_all add: dropCells_def)

lemma refilled_refl: "square n g \<Longrightarrow> refilled n g g"
  by (simp add: refilled_def)

lemma refilled_trans: "refilled n g g' \<Longrightarrow> refilled n g' g'' \<Longrightarrow> refilled n g g''"
  unfolding refilled_def by (metis isDigit.simps(3))

lemma refilled_keeps:
  "refilled n g g' \<Longrightarrow> r < n \<Longrightarrow> c < n \<Longrightarrow> gridAt g (int r) (int c) \<noteq> Null
     \<Longrightarrow> gridAt g' (int r) (int c) \<noteq> Null"
  by (simp add: refilled_def)

lemma fillCell_refilled:
  assumes "square n g" and "r < n" and "c < n"
  shows "refilled n g (fst (fillCell rnd (int r) (int c) (g, k)))"
    and "gridAt (fst (fillCell rnd (int r) (int c) (g, k))) (int r) (int c) \<noteq> Null"
proof -
  show "refilled n g (fst (fillCell rnd (int r) (int c) (g, k)))"
    using assms randomBelow_range[of 10 "rnd k"]
    by (auto simp: fillCell_def refilled_def square_setCell gridAt_setCell)
  show "gridAt (fst (fillCell rnd (int r) (int c) (g, k))) (int r) (int c) \<noteq> Null"
    using assms by (simp add: fillCell_def gridAt_setCell)
qed

lemma fillRow:
  assumes "square n g" and "r < n" and "\<forall>c \<in> set cs. c < n"
  shows "refilled n g (fst (fold (\<lambda>c. fillCell rnd (int r) (int c)) cs (g, k)))
       \<and> (\<forall>c \<in> set cs. gridAt (fst (fold (\<lambda>c. fillCell rnd (int r) (int c)) cs (g, k))) (int r) (int c)
                           \<noteq> Null)"
  using assms
proof (induction cs arbitrary: g k)
  case Nil
  then show ?case by (simp add: refilled_refl)
next
  case (Cons c cs)
  obtain g1 k1 where f: "fillCell rnd (int r) (int c) (g, k) = (g1, k1)"
    by (cases "fillCell rnd (int r) (int c) (g, k)")
  from Cons.prems have c: "c < n" by simp
  from fillCell_refilled[OF Cons.prems(1,2) c, of rnd k] f
  have r1: "refilled n g g1" and nn: "gridAt g1 (int r) (int c) \<noteq> Null" by simp_all
  then have sq1: "square n g1" by (simp add: refilled_def)
  from Cons.IH[OF sq1 Cons.prems(2), of k1] Cons.prems(3)
  have r2: "refilled n g1 (fst (fold (\<lambda>c. fillCell rnd (int r) (int c)) cs (g1, k1)))"
    and rest: "\<forall>c \<in> set cs. gridAt (fst (fold (\<lambda>c. fillCell rnd (int r) (int c)) cs (g1, k1)))
                                (int r) (int c) \<noteq> Null"
    by simp_all
  from refilled_keeps[OF r2 Cons.prems(2) c nn] refilled_trans[OF r1 r2] rest f
  show ?case by simp
qed

lemma fillRows:
  assumes "square n g" and "\<forall>r \<in> set rs. r < n"
  shows "refilled n g (fst (fold (\<lambda>r. fold (\<lambda>c. fillCell rnd (int r) (int c)) [0..<n]) rs (g, k)))
       \<and> (\<forall>r \<in> set rs. \<forall>c < n.
             gridAt (fst (fold (\<lambda>r. fold (\<lambda>c. fillCell rnd (int r) (int c)) [0..<n]) rs (g, k)))
                    (int r) (int c) \<noteq> Null)"
  using assms
proof (induction rs arbitrary: g k)
  case Nil
  then show ?case by (simp add: refilled_refl)
next
  case (Cons r rs)
  obtain g1 k1 where f: "fold (\<lambda>c. fillCell rnd (int r) (int c)) [0..<n] (g, k) = (g1, k1)"
    by (cases "fold (\<lambda>c. fillCell rnd (int r) (int c)) [0..<n] (g, k)")
  from Cons.prems have r: "r < n" by simp
  from fillRow[OF Cons.prems(1) r, of "[0..<n]" rnd k] f
  have r1: "refilled n g g1" and nn: "\<forall>c < n. gridAt g1 (int r) (int c) \<noteq> Null" by simp_all
  then have sq1: "square n g1" by (simp add: refilled_def)
  let ?g2 = "fst (fold (\<lambda>r. fold (\<lambda>c. fillCell rnd (int r) (int c)) [0..<n]) rs (g1, k1))"
  from Cons.IH[OF sq1, of k1] Cons.prems(2)
  have r2: "refilled n g1 ?g2"
    and rest: "\<forall>r \<in> set rs. \<forall>c < n. gridAt ?g2 (int r) (int c) \<noteq> Null"
    by simp_all
  have "\<forall>c < n. gridAt ?g2 (int r) (int c) \<noteq> Null"
    using refilled_keeps[OF r2 r] nn by blast
  with refilled_trans[OF r1 r2] rest f show ?case by simp
qed

lemma fillGrid_full:
  assumes "square n g"
  shows "refilled n g (fillGrid rnd n g)"
    and "r < n \<Longrightarrow> c < n \<Longrightarrow> gridAt (fillGrid rnd n g) (int r) (int c) \<noteq> Null"
  using fillRows[OF assms, of "[0..<n]" rnd 0] by (simp_all add: fillGrid_def)


text \<open>
  The board of a session is always a matrix of \<open>gridSize\<close> rows of \<open>gridSize\<close> cells:
  \<open>initializeGrid\<close> builds one and no event changes its shape.
\<close>

lemma square_initializeGrid:
  "square (gridSize s) (grid (initializeGrid rnd s))" "gridSize (initializeGrid rnd s) = gridSize s"
  by (simp_all add: square_def initializeGrid_def list_all_iff)

lemma levelUp_shape [simp]:
  "grid (levelUp s) = grid s" "gridSize (levelUp s) = gridSize s"
  by (simp_all add: levelUp_def)

lemma handleCellClick_shape:
  "grid (handleCellClick row col s) = grid s" "gridSize (handleCellClick row col s) = gridSize s"
  by (simp_all add: handleCellClick_def Let_def destroyCells_eq calculateScore_def)

lemma activatePowerUp_shape:
  "grid (activatePowerUp rnd type el s) = grid s"
  "gridSize (activatePowerUp rnd type el s) = gridSize s"
  by (cases type;
      simp add: activatePowerUp_def explodeRandomCells_def clearRandomDigit_def
                destroyCells_eq Let_def)+

lemma spawnPowerUps_shape:
  "grid (spawnPowerUps rnd s) = grid s" "gridSize (spawnPowerUps rnd s) = gridSize s"
  by (simp_all add: spawnPowerUps_def Let_def)

lemma startGame_shape:
  "grid (startGame rnd s) = grid s" "gridSize (startGame rnd s) = gridSize s"
  by (simp_all add: startGame_def startTimer_def stopTimer_def clearPowerUps_def
      spawnPowerUps_shape Let_def)

lemma resetGame_shape:
  "square (gridSize s) (grid (resetGame rnd s))" "gridSize (resetGame rnd s) = gridSize s"
proof -
  let ?t = "clearPowerUps (s\<lparr>isPlaying := False, isPaused := False, score := 0, timeLeft := 60,
                combo := 0, level := 1\<rparr>)"
  have r: "resetGame rnd s = initializeGrid rnd (stopTimer ?t)"
    by (simp add: resetGame_def Let_def)
  have n: "gridSize (stopTimer ?t) = gridSize s"
    by (simp add: stopTimer_def clearPowerUps_def)
  show "square (gridSize s) (grid (resetGame rnd s))"
    using square_initializeGrid(1)[where s = "stopTimer ?t" and rnd = rnd] by (simp add: r n)
  show "gridSize (resetGame rnd s) = gridSize s"
    by (simp add: r n square_initializeGrid(2))
qed

lemma runTask_shape:
  assumes "square (gridSize s) (grid s)"
  shows "square (gridSize s) (grid (runTask rnd t s))" "gridSize (runTask rnd t s) = gridSize s"
proof -
  have fillsq: "square (gridSize s) (fillGrid rnd (gridSize s) (grid s))"
    using fillGrid_full(1)[OF assms] by (simp add: refilled_def)
  show "square (gridSize s) (grid (runTask rnd t s))"
    using assms fillsq dropCells_columns(1)[OF assms]
    by (cases t)
       (simp_all add: runTask_def destroyCell_def square_setCell settle_def fillEmptySpaces_def
          fill_def comboDecay_def comboBoostExpiry_def powerUpExpiry_def spawnPowerUps_shape
          cooldownOff_def)
  show "gridSize (runTask rnd t s) = gridSize s"
    by (cases t)
       (simp_all add: runTask_def destroyCell_def settle_def fillEmptySpaces_def dropCells_def
          fill_def comboDecay_def comboBoostExpiry_def powerUpExpiry_def spawnPowerUps_shape
          cooldownOff_def)
qed

lemma step_shape:
  assumes "square (gridSize s) (grid s)"
  shows "square (gridSize s) (grid (step rnd e s)) \<and> gridSize (step rnd e s) = gridSize s"
proof (cases e)
  case (CellClick row col)
  with assms show ?thesis by (simp add: step_def handleCellClick_shape)
next
  case StartButton
  let ?t = "setTimeout CooldownOff 250 (s\<lparr>startCooldown := True\<rparr>)"
  have "gridSize ?t = gridSize s" "grid ?t = grid s" by simp_all
  with StartButton assms resetGame_shape[where s = ?t and rnd = rnd] show ?thesis
    by (simp add: step_def handleStartButton_def startGame_shape Let_def)
next
  case PauseButton
  with assms show ?thesis by (simp add: step_def pauseGame_def startTimer_def stopTimer_def)
next
  case ResetButton
  with resetGame_shape[where s = s and rnd = rnd] show ?thesis by (simp add: step_def)
next
  case ShuffleButton
  with square_initializeGrid[where s = s and rnd = rnd] show ?thesis by (simp add: step_def shuffleGrid_def)
next
  case (PowerUpClick el)
  with assms show ?thesis
    by (simp add: step_def activatePowerUp_shape split: option.splits)
next
  case Tick
  with assms show ?thesis
    by (simp add: step_def tick_def endGame_def stopTimer_def clearPowerUps_def Let_def)
next
  case (Timeout i)
  let ?s = "s\<lparr>pending := take i (pending s) @ drop (Suc i) (pending s)\<rparr>"
  have "square (gridSize ?s) (grid ?s)" using assms by simp
  from runTask_shape[OF this] Timeout assms show ?thesis by (simp add: step_def)
next
  case WatchAd
  with assms show ?thesis by (simp add: step_def showRewardedVideo_def stopTimer_def)
next
  case Reward
  with assms show ?thesis by (simp add: step_def giveReward_def startTimer_def stopTimer_def)
qed

lemma run_shape:
  "square (gridSize s) (grid s) \<Longrightarrow>
     square (gridSize s) (grid (run es s)) \<and> gridSize (run es s) = gridSize s"
proof (induction es arbitrary: s)
  case Nil
  then show ?case by simp
next
  case (Cons a es)
  obtain rnd e where a: "a = (rnd, e)" by (cases a)
  from step_shape[OF Cons.prems, where rnd = rnd and e = e]
  have s1: "square (gridSize (step rnd e s)) (grid (step rnd e s))"
    and n1: "gridSize (step rnd e s) = gridSize s" by simp_all
  from Cons.IH[OF s1] n1 a show ?case by simp
qed

lemma reachable_square:
  "square 8 (grid (run es (constructor rnd))) \<and> gridSize (run es (constructor rnd)) = 8"
proof -
  have "gridSize (constructor rnd) = 8" by (simp add: constructor_def initializeGrid_def)
  moreover have "square (gridSize (constructor rnd)) (grid (constructor rnd))"
    by (simp add: constructor_def square_def initializeGrid_def list_all_iff)
  ultimately show ?thesis using run_shape[where s = "constructor rnd" and es = es] by simp
qed



end
